theory Spec2Isabelle
  imports Main "HOL-Library.Log_Nat" "HOL-Library.Multiset"
begin

section \<open>float64 arithmetic used by the uptime counters\<close>

text \<open>
  \<^verbatim>\<open>Result.Attempt\<close> and \<^verbatim>\<open>Result.Success\<close> are Go \<^verbatim>\<open>float64\<close> values. A finite float64 is
  a rational number, so the counters are modelled as \<^typ>\<open>rat\<close> and every float64 operation
  is the exact operation followed by IEEE 754 rounding to 53 significant bits, ties to even.
  All values that occur in the program lie between \<open>2 powi -53\<close> and \<open>2 ^ 53\<close>, far inside the
  normal range of the format, so overflow and subnormal numbers are not modelled.
\<close>

definition expo :: "rat \<Rightarrow> int" where
  \<comment> \<open>the binary exponent \<open>e\<close> of a positive number: \<open>2 powi e \<le> x < 2 powi (e + 1)\<close>\<close>
  "expo x =
     (if 1 \<le> x then int (floorlog 2 (nat \<lfloor>x\<rfloor>)) - 1
      else - int (floorlog 2 (nat (\<lceil>1 / x\<rceil> - 1))))"

definition rne :: "rat \<Rightarrow> int" where
  \<comment> \<open>round to the nearest integer, ties to the even one\<close>
  "rne q =
     (let f = \<lfloor>q\<rfloor>; r = q - of_int f
      in if r < 1 / 2 then f
         else if 1 / 2 < r then f + 1
         else if even f then f else f + 1)"

definition fl64 :: "rat \<Rightarrow> rat" where
  \<comment> \<open>the float64 nearest to \<open>x\<close>; \<open>u\<close> is the spacing of the floats around \<open>x\<close>\<close>
  "fl64 x =
     (if x = 0 then 0
      else let a = \<bar>x\<bar>; u = 2 powi (expo a - 52)
           in sgn x * (of_int (rne (a / u)) * u))"

definition go_Round :: "rat \<Rightarrow> rat" where
  \<comment> \<open>\<^verbatim>\<open>math.Round\<close>: nearest integer, halves away from zero\<close>
  "go_Round x =
     (if 0 \<le> x then of_int \<lfloor>x + 1 / 2\<rfloor> else - of_int \<lfloor>- x + 1 / 2\<rfloor>)"

definition go_int :: "rat \<Rightarrow> int" where
  \<comment> \<open>the conversion \<^verbatim>\<open>int(f)\<close>: the fraction is discarded (truncation towards zero)\<close>
  "go_int x = (if 0 \<le> x then \<lfloor>x\<rfloor> else \<lceil>x\<rceil>)"

section \<open>Data model\<close>

record HealthCheck =
  Body :: string
  Headers :: "(string \<times> string) list option"
  Method :: string
  Name :: string
  URL :: string
  hostname :: string

record Result =
  Attempt :: rat
  Success :: rat

definition Uptime :: "Result \<Rightarrow> int" where
  "Uptime r =
     (if Attempt r = 0 then 0
      else go_int (go_Round (fl64 (100 * fl64 (Success r / Attempt r)))))"


section \<open>The Go standard library, as far as the program uses it\<close>

text \<open>
  \<^verbatim>\<open>net/http\<close> and \<^verbatim>\<open>net/url\<close> are not part of the repository. What they decide (which
  method and URL \<^verbatim>\<open>http.NewRequest\<close> accepts, how a header key is canonicalised, what
  \<^verbatim>\<open>url.Parse\<close> returns) is a parameter of the model, collected in \<open>golib\<close>; what the
  network answers to one \<^verbatim>\<open>client.Do\<close> is a parameter of type \<open>network\<close>. A timeout of the
  client is one of the errors \<^verbatim>\<open>client.Do\<close> returns. The model starts where \<^verbatim>\<open>main\<close> holds
  the decoded configuration, the slice \<^verbatim>\<open>healthcheck\<close>.
\<close>

type_synonym error = string

record Request =
  req_Method :: string
  req_URL :: string
  req_Header :: "string \<Rightarrow> string list"
  req_Body :: string

record Response =
  StatusCode :: int

record Client =
  Timeout :: int

record url =
  Hostname :: string

type_synonym network = "Client \<Rightarrow> Request \<Rightarrow> error + Response"

record golib =
  NewRequest_valid :: "string \<Rightarrow> string \<Rightarrow> bool"
  CanonicalHeaderKey :: "string \<Rightarrow> string"
  url_Parse :: "string \<Rightarrow> error + url"

definition Millisecond :: int where
  \<comment> \<open>\<^verbatim>\<open>time.Duration\<close> counts nanoseconds\<close>
  "Millisecond = 1000000"

definition Second :: int where
  "Second = 1000 * Millisecond"

definition http_NewRequest :: "golib \<Rightarrow> string \<Rightarrow> string \<Rightarrow> string \<Rightarrow> error + Request" where
  \<comment> \<open>on success the request carries the method, the URL and the bytes of the buffer, and an
     empty header; on failure the returned request pointer is nil\<close>
  "http_NewRequest lib method u body =
     (if NewRequest_valid lib method u
      then Inr \<lparr>req_Method = method, req_URL = u, req_Header = (\<lambda>k. []), req_Body = body\<rparr>
      else Inl ''net/http: invalid method or URL'')"

definition Header_Add :: "golib \<Rightarrow> Request \<Rightarrow> string \<Rightarrow> string \<Rightarrow> Request" where
  \<comment> \<open>\<^verbatim>\<open>req.Header.Add(k, v)\<close> appends \<open>v\<close> to the values of the canonical form of \<open>k\<close>\<close>
  "Header_Add lib req k v =
     (let ck = CanonicalHeaderKey lib k
      in req\<lparr>req_Header := (req_Header req)(ck := req_Header req ck @ [v])\<rparr>)"

section \<open>The probe: \<^verbatim>\<open>check\<close>\<close>

datatype 'a outcome = Returned 'a | Panic

definition responseTimeout :: int where
  "responseTimeout = 500"

definition outputTimeout :: int where
  "outputTimeout = 15"

text \<open>
  The loop \<^verbatim>\<open>for k, v := range site.Headers { req.Header.Add(k, v) }\<close>. The request is a
  pointer, \<open>None\<close> when nil; the loop body dereferences it, so the first iteration on a nil
  request panics and a loop without iterations does not touch it. A Go map has no iteration
  order: the list is the order of one run.
\<close>

fun add_headers ::
  "golib \<Rightarrow> Request option \<Rightarrow> (string \<times> string) list \<Rightarrow> Request option outcome" where
  "add_headers lib req [] = Returned req"
| "add_headers lib None ((k, v) # hs) = Panic"
| "add_headers lib (Some r) ((k, v) # hs) = add_headers lib (Some (Header_Add lib r k v)) hs"

definition check :: "golib \<Rightarrow> network \<Rightarrow> HealthCheck \<Rightarrow> bool outcome" where
  \<comment> \<open>fetch.go, the concurrent variant\<close>
  "check lib net site =
     (let client = \<lparr>Timeout = responseTimeout * Millisecond\<rparr>;
          method = (if Method site \<noteq> [] then Method site else ''GET'')
      in case http_NewRequest lib method (URL site) (Body site) of
           Inl err \<Rightarrow> Returned False
         | Inr req \<Rightarrow>
             (case (case Headers site of
                      None \<Rightarrow> Returned (Some req)
                    | Some hs \<Rightarrow> add_headers lib (Some req) hs) of
                Panic \<Rightarrow> Panic
              | Returned None \<Rightarrow> Panic
              | Returned (Some req') \<Rightarrow>
                  (case net client req' of
                     Inl err \<Rightarrow> Returned False
                   | Inr resp \<Rightarrow>
                       Returned (200 \<le> StatusCode resp \<and> StatusCode resp \<le> 299))))"

definition check_seq :: "golib \<Rightarrow> network \<Rightarrow> HealthCheck \<Rightarrow> bool outcome" where
  \<comment> \<open>the sequential variant: the headers are added before the error of
     \<^verbatim>\<open>http.NewRequest\<close> is looked at\<close>
  "check_seq lib net site =
     (let method = (if Method site \<noteq> [] then Method site else ''GET'');
          client = \<lparr>Timeout = responseTimeout * Millisecond\<rparr>;
          r = http_NewRequest lib method (URL site) (Body site);
          req = (case r of Inl err \<Rightarrow> None | Inr q \<Rightarrow> Some q)
      in case (case Headers site of
                 None \<Rightarrow> Returned req
               | Some hs \<Rightarrow> add_headers lib req hs) of
           Panic \<Rightarrow> Panic
         | Returned req' \<Rightarrow>
             (case r of
                Inl err \<Rightarrow> Returned False
              | Inr q \<Rightarrow>
                  (case req' of
                     None \<Rightarrow> Panic
                   | Some q' \<Rightarrow>
                       (case net client q' of
                          Inl err \<Rightarrow> Returned False
                        | Inr resp \<Rightarrow>
                            Returned (200 \<le> StatusCode resp \<and> StatusCode resp \<le> 299)))))"

section \<open>Startup: the sanity checks and the buckets\<close>

text \<open>
  The loop \<^verbatim>\<open>for i, hc := range healthcheck\<close> of \<^verbatim>\<open>main\<close>. It is the same text in both
  variants but for the value stored in the new bucket, which is the parameter \<open>zero\<close>.
  \<open>Inl (msg, code)\<close> is the process printing \<open>msg\<close> and calling \<^verbatim>\<open>os.Exit(code)\<close>.
\<close>

fun main_init ::
  "golib \<Rightarrow> 'r \<Rightarrow> HealthCheck list \<Rightarrow> (string \<rightharpoonup> 'r) \<Rightarrow>
     (string \<times> int) + (HealthCheck list \<times> (string \<rightharpoonup> 'r))" where
  "main_init lib zero [] sites = Inr ([], sites)"
| "main_init lib zero (hc # rest) sites =
     (if Name hc = [] then Inl (''Error: Required name not found'' @ [CHR 0x0A], - 1)
      else if URL hc = [] then Inl (''Error: Required URL not found'' @ [CHR 0x0A], - 1)
      else case url_Parse lib (URL hc) of
             Inl err \<Rightarrow> Inl (''Error: Cant parse URL: '' @ URL hc, - 1)
           | Inr address \<Rightarrow>
               (let hc' = hc\<lparr>hostname := Hostname address\<rparr>
                in case main_init lib zero rest (sites(hostname hc' \<mapsto> zero)) of
                     Inl e \<Rightarrow> Inl e
                   | Inr (hcs, sites') \<Rightarrow> Inr (hc' # hcs, sites')))"

section \<open>The polling loop of fetch.go\<close>

datatype 'u event =
    is_Probed: Probed nat bool
  | is_Reported: Reported "string \<rightharpoonup> 'u"
  | is_Slept: Slept int

definition record_result ::
  "(string \<rightharpoonup> Result) \<Rightarrow> string \<Rightarrow> bool \<Rightarrow> (string \<rightharpoonup> Result) outcome" where
  \<comment> \<open>the critical section between \<^verbatim>\<open>Lock\<close> and \<^verbatim>\<open>Unlock\<close>; a host without a bucket
     is a nil \<^verbatim>\<open>*Result\<close>\<close>
  "record_result sites host success =
     (case sites host of
        None \<Rightarrow> Panic
      | Some r \<Rightarrow>
          (let r1 = r\<lparr>Attempt := fl64 (Attempt r + 1)\<rparr>;
               r2 = (if success then r1\<lparr>Success := fl64 (Success r1 + 1)\<rparr> else r1)
           in Returned (sites(host \<mapsto> r2))))"

definition goroutine ::
  "(HealthCheck \<Rightarrow> bool outcome) \<Rightarrow> nat \<Rightarrow> HealthCheck \<Rightarrow>
     int event list \<times> (string \<rightharpoonup> Result) \<Rightarrow>
     (int event list \<times> (string \<rightharpoonup> Result)) outcome" where
  "goroutine probe i hc st =
     (case probe hc of
        Panic \<Rightarrow> Panic
      | Returned success \<Rightarrow>
          (case record_result (snd st) (hostname hc) success of
             Panic \<Rightarrow> Panic
           | Returned sites' \<Rightarrow> Returned (fst st @ [Probed i success], sites')))"

text \<open>
  The mutex makes the critical sections of the goroutines of one cycle run one after the
  other, in an order the scheduler picks: \<open>sched\<close> lists the goroutines (by the index of
  their descriptor) in the order in which they take the lock. The probe of a goroutine
  does not read the store, so its outcome is the same wherever it ran before that.
  An index that names no descriptor names no goroutine.
\<close>

fun run_goroutines ::
  "(nat \<Rightarrow> HealthCheck \<Rightarrow> bool outcome) \<Rightarrow> HealthCheck list \<Rightarrow> nat list \<Rightarrow>
     int event list \<times> (string \<rightharpoonup> Result) \<Rightarrow>
     (int event list \<times> (string \<rightharpoonup> Result)) outcome" where
  "run_goroutines probe hcs [] st = Returned st"
| "run_goroutines probe hcs (i # js) st =
     (if i < length hcs
      then case goroutine (probe i) i (hcs ! i) st of
             Panic \<Rightarrow> Panic
           | Returned st' \<Rightarrow> run_goroutines probe hcs js st'
      else run_goroutines probe hcs js st)"

definition is_schedule :: "HealthCheck list \<Rightarrow> nat list \<Rightarrow> bool" where
  \<comment> \<open>every goroutine of the cycle takes the lock once: \<^verbatim>\<open>wg.Wait()\<close> returns after
     \<^verbatim>\<open>len(healthcheck)\<close> calls of \<^verbatim>\<open>wg.Done()\<close>\<close>
  "is_schedule hcs sched = (mset sched = mset [0..<length hcs])"

definition report :: "(string \<rightharpoonup> Result) \<Rightarrow> (string \<rightharpoonup> int)" where
  \<comment> \<open>the lines printed after \<^verbatim>\<open>wg.Wait()\<close>: host and uptime, in no particular order\<close>
  "report sites = (\<lambda>host. map_option Uptime (sites host))"

definition cycle ::
  "(nat \<Rightarrow> HealthCheck \<Rightarrow> bool outcome) \<Rightarrow> HealthCheck list \<Rightarrow> nat list \<Rightarrow>
     int event list \<times> (string \<rightharpoonup> Result) \<Rightarrow>
     (int event list \<times> (string \<rightharpoonup> Result)) outcome" where
  "cycle probe hcs sched st =
     (case run_goroutines probe hcs sched st of
        Panic \<Rightarrow> Panic
      | Returned st' \<Rightarrow>
          Returned (fst st' @ [Reported (report (snd st')), Slept (outputTimeout * Second)],
                    snd st'))"

text \<open>The first \<open>n\<close> rounds of the endless \<^verbatim>\<open>for\<close> loop.\<close>

fun main_loop ::
  "(nat \<Rightarrow> nat \<Rightarrow> HealthCheck \<Rightarrow> bool outcome) \<Rightarrow> HealthCheck list \<Rightarrow> (nat \<Rightarrow> nat list) \<Rightarrow>
     nat \<Rightarrow> int event list \<times> (string \<rightharpoonup> Result) \<Rightarrow>
     (int event list \<times> (string \<rightharpoonup> Result)) outcome" where
  "main_loop probe hcs sched 0 st = Returned st"
| "main_loop probe hcs sched (Suc n) st =
     (case main_loop probe hcs sched n st of
        Panic \<Rightarrow> Panic
      | Returned st' \<Rightarrow> cycle (probe n) hcs (sched n) st')"

definition main ::
  "golib \<Rightarrow> (nat \<Rightarrow> nat \<Rightarrow> network) \<Rightarrow> (nat \<Rightarrow> nat list) \<Rightarrow> HealthCheck list \<Rightarrow> nat \<Rightarrow>
     (string \<times> int) + (int event list \<times> (string \<rightharpoonup> Result)) outcome" where
  \<comment> \<open>\<^verbatim>\<open>main\<close> from the parsed configuration on, observed for \<open>n\<close> cycles; \<open>world c i\<close> is
     what the network answers to descriptor \<open>i\<close> in cycle \<open>c\<close>\<close>
  "main lib world sched healthcheck n =
     (case main_init lib \<lparr>Attempt = 0, Success = 0\<rparr> healthcheck Map.empty of
        Inl e \<Rightarrow> Inl e
      | Inr (hcs, sites) \<Rightarrow>
          Inr (main_loop (\<lambda>c i. check lib (world c i)) hcs sched n ([], sites)))"

section \<open>The sequential variant\<close>

text \<open>
  \<^verbatim>\<open>HealthCheckStatus\<close> maps a host to a map with the two keys \<^verbatim>\<open>"count"\<close> and \<^verbatim>\<open>"success"\<close>,
  both of Go type \<^verbatim>\<open>int\<close> (64 bits, wrapping).
\<close>

record SeqStatus =
  seq_count :: int
  seq_success :: int

definition incr64 :: "int \<Rightarrow> int" where
  "incr64 x = (x + 1 + 2 ^ 63) mod 2 ^ 64 - 2 ^ 63"

definition seq_uptime :: "SeqStatus \<Rightarrow> int option" where
  \<comment> \<open>there is no test for a zero count here: \<^verbatim>\<open>0 / 0\<close> is NaN, and the integer a NaN
     converts to depends on the platform (\<open>None\<close>)\<close>
  "seq_uptime st =
     (if seq_count st = 0 then None
      else Some (go_int (go_Round (fl64 (100 *
             fl64 (fl64 (of_int (seq_success st)) / fl64 (of_int (seq_count st))))))))"

definition seq_record ::
  "(string \<rightharpoonup> SeqStatus) \<Rightarrow> string \<Rightarrow> bool \<Rightarrow> (string \<rightharpoonup> SeqStatus) outcome" where
  \<comment> \<open>a host without an entry has a nil inner map, and assigning into a nil map panics\<close>
  "seq_record status host success =
     (case status host of
        None \<Rightarrow> Panic
      | Some m \<Rightarrow>
          (let m1 = m\<lparr>seq_count := incr64 (seq_count m)\<rparr>;
               m2 = (if success then m1\<lparr>seq_success := incr64 (seq_success m1)\<rparr> else m1)
           in Returned (status(host \<mapsto> m2))))"

fun seq_probes ::
  "(nat \<Rightarrow> HealthCheck \<Rightarrow> bool outcome) \<Rightarrow> nat \<Rightarrow> HealthCheck list \<Rightarrow>
     int option event list \<times> (string \<rightharpoonup> SeqStatus) \<Rightarrow>
     (int option event list \<times> (string \<rightharpoonup> SeqStatus)) outcome" where
  "seq_probes probe i [] st = Returned st"
| "seq_probes probe i (hc # rest) st =
     (case probe i hc of
        Panic \<Rightarrow> Panic
      | Returned success \<Rightarrow>
          (case seq_record (snd st) (hostname hc) success of
             Panic \<Rightarrow> Panic
           | Returned status' \<Rightarrow>
               seq_probes probe (Suc i) rest (fst st @ [Probed i success], status')))"

definition seq_report :: "(string \<rightharpoonup> SeqStatus) \<Rightarrow> (string \<rightharpoonup> int option)" where
  "seq_report status = (\<lambda>host. map_option seq_uptime (status host))"

definition seq_cycle ::
  "(nat \<Rightarrow> HealthCheck \<Rightarrow> bool outcome) \<Rightarrow> HealthCheck list \<Rightarrow>
     int option event list \<times> (string \<rightharpoonup> SeqStatus) \<Rightarrow>
     (int option event list \<times> (string \<rightharpoonup> SeqStatus)) outcome" where
  "seq_cycle probe hcs st =
     (case seq_probes probe 0 hcs st of
        Panic \<Rightarrow> Panic
      | Returned st' \<Rightarrow>
          Returned (fst st' @ [Reported (seq_report (snd st')), Slept (outputTimeout * Second)],
                    snd st'))"

fun seq_loop ::
  "(nat \<Rightarrow> nat \<Rightarrow> HealthCheck \<Rightarrow> bool outcome) \<Rightarrow> HealthCheck list \<Rightarrow>
     nat \<Rightarrow> int option event list \<times> (string \<rightharpoonup> SeqStatus) \<Rightarrow>
     (int option event list \<times> (string \<rightharpoonup> SeqStatus)) outcome" where
  "seq_loop probe hcs 0 st = Returned st"
| "seq_loop probe hcs (Suc n) st =
     (case seq_loop probe hcs n st of
        Panic \<Rightarrow> Panic
      | Returned st' \<Rightarrow> seq_cycle (probe n) hcs st')"

definition seq_main ::
  "golib \<Rightarrow> (nat \<Rightarrow> nat \<Rightarrow> network) \<Rightarrow> HealthCheck list \<Rightarrow> nat \<Rightarrow>
     (string \<times> int) + (int option event list \<times> (string \<rightharpoonup> SeqStatus)) outcome" where
  "seq_main lib world healthcheck n =
     (case main_init lib \<lparr>seq_count = 0, seq_success = 0\<rparr> healthcheck Map.empty of
        Inl e \<Rightarrow> Inl e
      | Inr (hcs, status) \<Rightarrow>
          Inr (seq_loop (\<lambda>c i. check_seq lib (world c i)) hcs n ([], status)))"

section \<open>A configuration for the examples\<close>

text \<open>
  A library that agrees with Go on the inputs of the examples: a method with a space is
  refused by \<^verbatim>\<open>http.NewRequest\<close>, the header keys used are canonical already, and
  \<^verbatim>\<open>url.Parse\<close> accepts \<^verbatim>\<open>foo\<close> as a relative reference without a host.
\<close>

definition demo_lib :: golib where
  "demo_lib =
     \<lparr>NewRequest_valid = (\<lambda>method u. CHR '' '' \<notin> set method),
      CanonicalHeaderKey = (\<lambda>k. k),
      url_Parse = (\<lambda>u.
        if u = ''http://a.example.com/x'' \<or> u = ''http://a.example.com/y''
          then Inr \<lparr>Hostname = ''a.example.com''\<rparr>
        else if u = ''http://b.example.com/'' then Inr \<lparr>Hostname = ''b.example.com''\<rparr>
        else if u = ''foo'' then Inr \<lparr>Hostname = []\<rparr>
        else Inl ''parse error'')\<rparr>"

definition demo_net :: "int \<Rightarrow> network" where
  \<comment> \<open>a network that answers every request with the given status\<close>
  "demo_net code = (\<lambda>client req. Inr \<lparr>StatusCode = code\<rparr>)"

definition demo_down :: network where
  \<comment> \<open>a network that refuses every connection\<close>
  "demo_down = (\<lambda>client req. Inl ''connection refused'')"

definition demo_world :: "int \<Rightarrow> int \<Rightarrow> nat \<Rightarrow> nat \<Rightarrow> network" where
  \<comment> \<open>descriptor 0 is answered with the first status and every other one with the second,
     in every cycle\<close>
  "demo_world code0 code1 = (\<lambda>c i. if i = 0 then demo_net code0 else demo_net code1)"

definition demo_sched :: "nat list \<Rightarrow> nat \<Rightarrow> nat list" where
  \<comment> \<open>the same order of the goroutines in every cycle\<close>
  "demo_sched order = (\<lambda>c. order)"

definition demo_site :: "string \<Rightarrow> string \<Rightarrow> (string \<times> string) list option \<Rightarrow> HealthCheck" where
  "demo_site method u hs =
     \<lparr>Body = [], Headers = hs, Method = method, Name = ''demo'', URL = u, hostname = []\<rparr>"

section \<open>Ideal counters\<close>

text \<open>
  The statements below compare the stores of both variants with counters that are plain
  natural numbers: \<open>fst\<close> counts the attempts of a host and \<open>snd\<close> its successes. A float64
  counter that is incremented by one follows the natural numbers up to \<open>2 ^ 53\<close> and stays
  there (\<open>sat53\<close>).
\<close>

definition sat53 :: "nat \<Rightarrow> nat" where
  "sat53 n = min n 9007199254740992"

definition as_Result :: "nat \<times> nat \<Rightarrow> Result" where
  "as_Result c = \<lparr>Attempt = of_nat (sat53 (fst c)), Success = of_nat (sat53 (snd c))\<rparr>"

definition as_SeqStatus :: "nat \<times> nat \<Rightarrow> SeqStatus" where
  "as_SeqStatus c = \<lparr>seq_count = int (fst c), seq_success = int (snd c)\<rparr>"

definition as_Sites :: "(string \<rightharpoonup> nat \<times> nat) \<Rightarrow> (string \<rightharpoonup> Result)" where
  "as_Sites t = (\<lambda>k. map_option as_Result (t k))"

definition as_Status :: "(string \<rightharpoonup> nat \<times> nat) \<Rightarrow> (string \<rightharpoonup> SeqStatus)" where
  "as_Status t = (\<lambda>k. map_option as_SeqStatus (t k))"

definition count1 :: "(string \<rightharpoonup> nat \<times> nat) \<Rightarrow> string \<Rightarrow> bool \<Rightarrow> (string \<rightharpoonup> nat \<times> nat)" where
  "count1 t h b =
     (case t h of
        None \<Rightarrow> t
      | Some c \<Rightarrow> t(h \<mapsto> (Suc (fst c), if b then Suc (snd c) else snd c)))"

fun count_list ::
  "(nat \<Rightarrow> HealthCheck \<Rightarrow> bool) \<Rightarrow> HealthCheck list \<Rightarrow> nat list \<Rightarrow>
     (string \<rightharpoonup> nat \<times> nat) \<Rightarrow> (string \<rightharpoonup> nat \<times> nat)" where
  "count_list out hcs [] t = t"
| "count_list out hcs (i # js) t =
     (if i < length hcs
      then count_list out hcs js (count1 t (hostname (hcs ! i)) (out i (hcs ! i)))
      else count_list out hcs js t)"

definition attempts_of :: "HealthCheck list \<Rightarrow> string \<Rightarrow> nat" where
  \<comment> \<open>the number of descriptors of a host\<close>
  "attempts_of hcs h = length (filter (\<lambda>i. hostname (hcs ! i) = h) [0..<length hcs])"

definition successes_of :: "(nat \<Rightarrow> HealthCheck \<Rightarrow> bool) \<Rightarrow> HealthCheck list \<Rightarrow> string \<Rightarrow> nat" where
  \<comment> \<open>the number of descriptors of a host whose probe succeeds\<close>
  "successes_of out hcs h =
     length (filter (\<lambda>i. hostname (hcs ! i) = h \<and> out i (hcs ! i)) [0..<length hcs])"

definition cycle_count ::
  "(nat \<Rightarrow> HealthCheck \<Rightarrow> bool) \<Rightarrow> HealthCheck list \<Rightarrow>
     (string \<rightharpoonup> nat \<times> nat) \<Rightarrow> (string \<rightharpoonup> nat \<times> nat)" where
  "cycle_count out hcs t =
     (\<lambda>h. map_option (\<lambda>c. (fst c + attempts_of hcs h, snd c + successes_of out hcs h)) (t h))"

fun loop_count ::
  "(nat \<Rightarrow> nat \<Rightarrow> HealthCheck \<Rightarrow> bool) \<Rightarrow> HealthCheck list \<Rightarrow> nat \<Rightarrow>
     (string \<rightharpoonup> nat \<times> nat) \<Rightarrow> (string \<rightharpoonup> nat \<times> nat)" where
  "loop_count out hcs 0 t = t"
| "loop_count out hcs (Suc n) t = cycle_count (out n) hcs (loop_count out hcs n t)"

definition bad_entry :: "golib \<Rightarrow> HealthCheck \<Rightarrow> bool" where
  "bad_entry lib hc = (Name hc = [] \<or> URL hc = [] \<or> isl (url_Parse lib (URL hc)))"

definition host_of :: "golib \<Rightarrow> HealthCheck \<Rightarrow> string" where
  "host_of lib hc = (case url_Parse lib (URL hc) of Inl e \<Rightarrow> [] | Inr a \<Rightarrow> Hostname a)"

section \<open>Properties of the header loop\<close>

lemma add_headers_Some:
  "\<exists>r'. add_headers lib (Some r) hs = Returned (Some r')"
  by (induction hs arbitrary: r) auto

lemma add_headers_None:
  "add_headers lib None hs = (if hs = [] then Returned None else Panic)"
  by (cases hs) auto

lemma add_headers_fields:
  "add_headers lib (Some r) hs = Returned (Some r') \<Longrightarrow>
     req_Method r' = req_Method r \<and> req_URL r' = req_URL r \<and> req_Body r' = req_Body r \<and>
     (\<forall>k. req_Header r' k =
        req_Header r k @ map snd (filter (\<lambda>kv. CanonicalHeaderKey lib (fst kv) = k) hs))"
proof (induction hs arbitrary: r)
  case Nil
  then show ?case by simp
next
  case (Cons kv hs)
  obtain k v where kv: "kv = (k, v)" by (cases kv)
  from Cons.prems have "add_headers lib (Some (Header_Add lib r k v)) hs = Returned (Some r')"
    by (simp add: kv)
  from Cons.IH [OF this] show ?case
    by (auto simp add: kv Header_Add_def Let_def)
qed

section \<open>Claims about the probe\<close>


text \<open>
  Claim C8. When \<^verbatim>\<open>http.NewRequest\<close> accepts the method and the URL, the request \<^verbatim>\<open>check\<close>
  sends has the configured method, or \<^verbatim>\<open>GET\<close> when none is configured, the URL of the
  descriptor, the configured body byte for byte (an empty body for a descriptor without
  one), and under every header key exactly the configured values whose key has that
  canonical form, so no header that the descriptor does not name.
\<close>

theorem check_request_built:
  assumes "NewRequest_valid lib (if Method site \<noteq> [] then Method site else ''GET'') (URL site)"
  shows "\<exists>req.
      (\<forall>net. check lib net site =
         Returned (case net \<lparr>Timeout = 500 * 1000000\<rparr> req of
                     Inl err \<Rightarrow> False
                   | Inr resp \<Rightarrow> 200 \<le> StatusCode resp \<and> StatusCode resp \<le> 299)) \<and>
      req_Method req = (if Method site \<noteq> [] then Method site else ''GET'') \<and>
      req_URL req = URL site \<and>
      req_Body req = Body site \<and>
      (\<forall>k. req_Header req k =
         map snd (filter (\<lambda>kv. CanonicalHeaderKey lib (fst kv) = k)
                    (case Headers site of None \<Rightarrow> [] | Some hs \<Rightarrow> hs)))"
proof -
  define m where "m = (if Method site \<noteq> [] then Method site else ''GET'')"
  define req where "req = \<lparr>req_Method = m, req_URL = URL site, req_Header = (\<lambda>k. []), req_Body = Body site\<rparr>"
  have nr: "http_NewRequest lib m (URL site) (Body site) = Inr req"
    using assms by (simp add: http_NewRequest_def m_def req_def)
  obtain req' where r': "add_headers lib (Some req) (case Headers site of None \<Rightarrow> [] | Some hs \<Rightarrow> hs) = Returned (Some req')"
    using add_headers_Some by blast
  then have r'': "(case Headers site of None \<Rightarrow> Returned (Some req)
      | Some hs \<Rightarrow> add_headers lib (Some req) hs) = Returned (Some req')"
    by (cases "Headers site") auto
  have run: "\<forall>net. check lib net site =
         Returned (case net \<lparr>Timeout = 500 * 1000000\<rparr> req' of
                     Inl err \<Rightarrow> False
                   | Inr resp \<Rightarrow> 200 \<le> StatusCode resp \<and> StatusCode resp \<le> 299)"
    using nr r'' unfolding m_def
    by (auto simp add: check_def responseTimeout_def Millisecond_def split: sum.splits)
  from add_headers_fields [OF r'] have
    "req_Method req' = m \<and> req_URL req' = URL site \<and> req_Body req' = Body site \<and>
     (\<forall>k. req_Header req' k = map snd (filter (\<lambda>kv. CanonicalHeaderKey lib (fst kv) = k)
                    (case Headers site of None \<Rightarrow> [] | Some hs \<Rightarrow> hs)))"
    by (simp add: req_def)
  with run show ?thesis unfolding m_def by blast
qed

text \<open>C8 at a \<^verbatim>\<open>POST\<close> descriptor with one header.\<close>

theorem check_request_built_witness:
  "\<exists>req.
      (\<forall>net. check demo_lib net (demo_site ''POST'' ''http://b.example.com/'' (Some [(''Foo'', ''bar'')])) =
         Returned (case net \<lparr>Timeout = 500 * 1000000\<rparr> req of
                     Inl err \<Rightarrow> False
                   | Inr resp \<Rightarrow> 200 \<le> StatusCode resp \<and> StatusCode resp \<le> 299)) \<and>
      req_Method req = ''POST'' \<and> req_Body req = [] \<and>
      req_Header req ''Foo'' = [''bar''] \<and> req_Header req ''User-Agent'' = []"
proof -
  let ?site = "demo_site ''POST'' ''http://b.example.com/'' (Some [(''Foo'', ''bar'')])"
  have canon: "CanonicalHeaderKey demo_lib = (\<lambda>k. k)"
    by (simp add: demo_lib_def)
  have valid: "NewRequest_valid demo_lib (if Method ?site \<noteq> [] then Method ?site else ''GET'') (URL ?site)"
    by (simp add: demo_lib_def demo_site_def)
  from check_request_built [OF valid] obtain req where
    run: "\<forall>net. check demo_lib net ?site =
         Returned (case net \<lparr>Timeout = 500 * 1000000\<rparr> req of
                     Inl err \<Rightarrow> False
                   | Inr resp \<Rightarrow> 200 \<le> StatusCode resp \<and> StatusCode resp \<le> 299)"
    and m: "req_Method req = (if Method ?site \<noteq> [] then Method ?site else ''GET'')"
    and b: "req_Body req = Body ?site"
    and h: "\<forall>k. req_Header req k =
         map snd (filter (\<lambda>kv. CanonicalHeaderKey demo_lib (fst kv) = k)
                    (case Headers ?site of None \<Rightarrow> [] | Some hs \<Rightarrow> hs))"
    by blast
  have "req_Method req = ''POST''" using m by (simp add: demo_site_def)
  moreover have "req_Body req = []" using b by (simp add: demo_site_def)
  moreover have "req_Header req ''Foo'' = [''bar'']"
    using h by (simp add: canon demo_site_def)
  moreover have "req_Header req ''User-Agent'' = []"
    using h by (simp add: canon demo_site_def)
  ultimately show ?thesis using run by blast
qed

text \<open>
  Claim C10, as stated, fails: with a \<^verbatim>\<open>Headers\<close> map that is not nil but empty and a method
  \<^verbatim>\<open>http.NewRequest\<close> refuses, the loop over the headers has no iteration, the nil request
  is never dereferenced, and the sequential \<^verbatim>\<open>check\<close> returns false.
\<close>

theorem check_seq_empty_headers_no_panic:
  "Headers (demo_site ''BAD METHOD'' ''http://b.example.com/'' (Some [])) \<noteq> None \<and>
   \<not> NewRequest_valid demo_lib ''BAD METHOD'' ''http://b.example.com/'' \<and>
   check_seq demo_lib demo_down (demo_site ''BAD METHOD'' ''http://b.example.com/'' (Some [])) = Returned False"
  by (simp add: check_seq_def demo_site_def demo_lib_def http_NewRequest_def)

text \<open>
  Claim C10, amended. When the construction of the request fails, the sequential \<^verbatim>\<open>check\<close>
  panics exactly when the descriptor has at least one header, and returns false
  otherwise; the \<^verbatim>\<open>check\<close> of fetch.go returns false in every case.
\<close>

theorem check_seq_panics_on_nil_request:
  assumes "\<not> NewRequest_valid lib (if Method site \<noteq> [] then Method site else ''GET'') (URL site)"
  shows "check_seq lib net site =
           (if \<exists>h hs. Headers site = Some (h # hs) then Panic else Returned False) \<and>
         check lib net site = Returned False"
proof -
  have nr: "\<exists>e. http_NewRequest lib (if Method site \<noteq> [] then Method site else ''GET'') (URL site) (Body site) = Inl e"
    using assms by (simp add: http_NewRequest_def)
  then obtain e where e: "http_NewRequest lib (if Method site \<noteq> [] then Method site else ''GET'') (URL site) (Body site) = Inl e" ..
  have c: "check lib net site = Returned False"
    using e by (simp add: check_def)
  have s: "check_seq lib net site =
           (if \<exists>h hs. Headers site = Some (h # hs) then Panic else Returned False)"
  proof (cases "Headers site")
    case None
    then show ?thesis using e by (simp add: check_seq_def)
  next
    case (Some hs)
    then show ?thesis using e
      by (cases hs) (auto simp add: check_seq_def add_headers_None)
  qed
  from c s show ?thesis by simp
qed

text \<open>C10 at a descriptor with one header and a method with a space.\<close>

theorem check_seq_panics_on_nil_request_witness:
  "check_seq demo_lib demo_down (demo_site ''BAD METHOD'' ''http://b.example.com/'' (Some [(''Foo'', ''bar'')])) = Panic \<and>
   check demo_lib demo_down (demo_site ''BAD METHOD'' ''http://b.example.com/'' (Some [(''Foo'', ''bar'')])) = Returned False"
  using check_seq_panics_on_nil_request [of demo_lib "demo_site ''BAD METHOD'' ''http://b.example.com/'' (Some [(''Foo'', ''bar'')])" demo_down]
  by (simp add: demo_lib_def demo_site_def)

section \<open>Properties of float64 rounding\<close>

lemma expo_lower_ge1:
  assumes "1 \<le> x"
  shows "2 powi (expo x) \<le> x" and "x < 2 powi (expo x + 1)"
proof -
  define n where "n = nat \<lfloor>x\<rfloor>"
  define f where "f = floorlog 2 n"
  have n1: "1 \<le> n" using assms by (simp add: n_def le_nat_iff)
  have xn: "of_nat n \<le> x" "x < of_nat n + 1"
    using assms floor_correct [of x] by (simp_all add: n_def)
  have fb: "2 ^ (f - 1) \<le> n" "n < 2 ^ f"
    using floorlog_bounds [of n 2] n1 by (simp_all add: f_def)
  have f1: "1 \<le> f"
    using n1 floorlog_eq_zero_iff [of 2 n] by (simp add: f_def Suc_le_eq)
  have e: "expo x = int (f - 1)"
    using assms f1 by (simp add: expo_def n_def f_def)
  have "(2::rat) powi (expo x) = of_nat (2 ^ (f - 1))"
    by (simp add: e)
  also have "\<dots> \<le> of_nat n"
    using fb(1) by (simp only: of_nat_le_iff)
  finally show "2 powi (expo x) \<le> x" using xn(1) by simp
  have "x < of_nat (n + 1)" using xn(2) by simp
  also have "\<dots> \<le> of_nat (2 ^ f)"
    using fb(2) unfolding of_nat_le_iff by simp
  also have "\<dots> = (2::rat) powi (int f)"
    by simp
  also have "int f = expo x + 1"
    using e f1 by simp
  finally show "x < 2 powi (expo x + 1)" .
qed


lemma expo_lower_lt1:
  assumes "0 < x" "x < 1"
  shows "2 powi (expo x) \<le> x" and "x < 2 powi (expo x + 1)"
proof -
  define y where "y = 1 / x"
  define n where "n = nat (\<lceil>y\<rceil> - 1)"
  define f where "f = floorlog 2 n"
  have y1: "1 < y" using assms by (simp add: y_def)
  then have c2: "2 \<le> \<lceil>y\<rceil>" by (simp add: le_ceiling_iff)
  have n1: "1 \<le> n" using c2 by (simp add: n_def le_nat_iff)
  have nint: "int n = \<lceil>y\<rceil> - 1" using c2 by (simp add: n_def)
  have "(of_nat n :: rat) = of_int (int n)" by simp
  then have nr: "(of_nat n :: rat) = of_int \<lceil>y\<rceil> - 1"
    unfolding nint by simp
  have yn: "of_nat n < y" "y \<le> of_nat n + 1"
    using ceiling_correct [of y] unfolding nr by simp_all
  have fb: "2 ^ (f - 1) \<le> n" "n < 2 ^ f"
    using floorlog_bounds [of n 2] n1 by (simp_all add: f_def)
  have f1: "1 \<le> f"
    using n1 floorlog_eq_zero_iff [of 2 n] by (simp add: f_def Suc_le_eq)
  have e: "expo x = - int f"
    using assms by (simp add: expo_def n_def f_def y_def)
  have ypos: "0 < y" using y1 by simp
  have xy: "1 / y = x" using assms by (simp add: y_def)
  have pw: "(2::rat) powi (expo x) = 1 / 2 ^ f"
    unfolding e by (simp add: power_int_minus field_simps)
  have "y \<le> of_nat (n + 1)" using yn(2) by simp
  also have "\<dots> \<le> of_nat (2 ^ f)"
    using fb(2) unfolding of_nat_le_iff by simp
  finally have "y \<le> 2 ^ f" by simp
  then have "1 / 2 ^ f \<le> 1 / y"
    using ypos by (simp add: frac_le)
  then show "2 powi (expo x) \<le> x"
    unfolding pw xy .
  have "(of_nat (2 ^ (f - 1)) :: rat) \<le> of_nat n"
    using fb(1) by (simp only: of_nat_le_iff)
  then have "(2::rat) ^ (f - 1) \<le> of_nat n" by simp
  then have "(2::rat) ^ (f - 1) < y" using yn(1) by linarith
  then have "1 / y < 1 / 2 ^ (f - 1)"
    by (simp add: frac_less2)
  moreover have "expo x + 1 = - int (f - 1)"
    using e f1 by simp
  then have "(2::rat) powi (expo x + 1) = 1 / 2 ^ (f - 1)"
    by (simp add: power_int_minus field_simps)
  ultimately show "x < 2 powi (expo x + 1)"
    unfolding xy by simp
qed

lemma expo_bounds:
  assumes "0 < x"
  shows "2 powi (expo x) \<le> x" and "x < 2 powi (expo x + 1)"
  using assms expo_lower_ge1 [of x] expo_lower_lt1 [of x]
  by (cases "1 \<le> x"; simp)+

lemma two_powi_less_cancel: "(2::rat) powi m < 2 powi n \<Longrightarrow> m < n"
  using power_int_increasing [of n m "2::rat"] by (cases "m < n") auto

lemma rne_of_int: "rne (of_int z) = z"
  by (simp add: rne_def)

lemma rne_err: "\<bar>of_int (rne q) - q\<bar> \<le> 1 / 2"
proof -
  have "of_int \<lfloor>q\<rfloor> \<le> q" "q < of_int \<lfloor>q\<rfloor> + 1"
    using floor_correct [of q] by simp_all
  then show ?thesis
    by (auto simp add: rne_def Let_def abs_le_iff)
qed

lemma rne_mono: "q \<le> q' \<Longrightarrow> rne q \<le> rne q'"
proof -
  assume le: "q \<le> q'"
  have fq: "of_int \<lfloor>q\<rfloor> \<le> q" "q < of_int \<lfloor>q\<rfloor> + 1"
    and fq': "of_int \<lfloor>q'\<rfloor> \<le> q'" "q' < of_int \<lfloor>q'\<rfloor> + 1"
    using floor_correct [of q] floor_correct [of q'] by simp_all
  have fl: "\<lfloor>q\<rfloor> \<le> \<lfloor>q'\<rfloor>" using le by (rule floor_mono)
  show ?thesis
  proof (cases "\<lfloor>q\<rfloor> = \<lfloor>q'\<rfloor>")
    case True
    then show ?thesis
      using le by (auto simp add: rne_def Let_def)
  next
    case False
    with fl have "\<lfloor>q\<rfloor> + 1 \<le> \<lfloor>q'\<rfloor>" by simp
    moreover have "rne q \<le> \<lfloor>q\<rfloor> + 1" by (simp add: rne_def Let_def)
    moreover have "\<lfloor>q'\<rfloor> \<le> rne q'" by (simp add: rne_def Let_def)
    ultimately show ?thesis by linarith
  qed
qed

lemma fl64_pos:
  "0 < x \<Longrightarrow> fl64 x = of_int (rne (x / 2 powi (expo x - 52))) * 2 powi (expo x - 52)"
  by (simp add: fl64_def Let_def)

lemma fl64_err:
  assumes "0 < x"
  shows "\<bar>fl64 x - x\<bar> \<le> x / 2 ^ 53"
proof -
  define u :: rat where "u = 2 powi (expo x - 52)"
  have u0: "0 < u" by (simp add: u_def)
  have "fl64 x - x = (of_int (rne (x / u)) - x / u) * u"
    using u0 by (simp add: fl64_pos [OF assms] u_def [symmetric] field_simps)
  then have "\<bar>fl64 x - x\<bar> = \<bar>of_int (rne (x / u)) - x / u\<bar> * u"
    using u0 by (simp add: abs_mult)
  also have "\<dots> \<le> 1 / 2 * u"
    using rne_err [of "x / u"] u0 by (intro mult_right_mono) simp_all
  also have "\<dots> = 2 powi (expo x) / 2 ^ 53"
    by (simp add: u_def power_int_diff)
  also have "\<dots> \<le> x / 2 ^ 53"
    using expo_bounds(1) [OF assms] by (simp add: divide_right_mono)
  finally show ?thesis .
qed

lemma fl64_lower:
  assumes "0 < x"
  shows "2 powi (expo x) \<le> fl64 x"
proof -
  define u :: rat where "u = 2 powi (expo x - 52)"
  have u0: "0 < u" by (simp add: u_def)
  have pu: "(2::rat) powi (expo x) = 2 ^ 52 * u"
    by (simp add: u_def power_int_diff)
  have "of_int (2 ^ 52) \<le> x / u"
    using expo_bounds(1) [OF assms] u0 by (simp add: pu pos_le_divide_eq)
  then have "2 ^ 52 \<le> rne (x / u)"
    using rne_mono [of "of_int (2 ^ 52)" "x / u"] by (simp only: rne_of_int)
  then have "(of_int (2 ^ 52) :: rat) \<le> of_int (rne (x / u))"
    by (simp only: of_int_le_iff)
  then have "2 ^ 52 * u \<le> of_int (rne (x / u)) * u"
    using u0 by (intro mult_right_mono) simp_all
  then show ?thesis
    by (simp add: fl64_pos [OF assms] u_def [symmetric] pu)
qed

lemma fl64_upper:
  assumes "0 < x"
  shows "fl64 x \<le> 2 powi (expo x + 1)"
proof -
  define u :: rat where "u = 2 powi (expo x - 52)"
  have u0: "0 < u" by (simp add: u_def)
  have pu: "(2::rat) powi (expo x + 1) = 2 ^ 53 * u"
    by (simp add: u_def power_int_diff power_int_add)
  have "x / u \<le> of_int (2 ^ 53)"
    using expo_bounds(2) [OF assms] u0 by (simp add: pu pos_divide_le_eq)
  then have "rne (x / u) \<le> 2 ^ 53"
    using rne_mono [of "x / u" "of_int (2 ^ 53)"] by (simp only: rne_of_int)
  then have "(of_int (rne (x / u)) :: rat) \<le> of_int (2 ^ 53)"
    by (simp only: of_int_le_iff)
  then have "of_int (rne (x / u)) * u \<le> 2 ^ 53 * u"
    using u0 by (intro mult_right_mono) simp_all
  then show ?thesis
    by (simp add: fl64_pos [OF assms] u_def [symmetric] pu)
qed

lemma expo_mono:
  assumes "0 < x" "x \<le> y"
  shows "expo x \<le> expo y"
proof -
  have "0 < y" using assms by simp
  from expo_bounds(1) [OF assms(1)] expo_bounds(2) [OF this] assms(2)
  have "(2::rat) powi (expo x) < 2 powi (expo y + 1)" by linarith
  then show ?thesis using two_powi_less_cancel by fastforce
qed

lemma fl64_mono:
  assumes "0 < x" "x \<le> y"
  shows "fl64 x \<le> fl64 y"
proof -
  have y0: "0 < y" using assms by simp
  show ?thesis
  proof (cases "expo x = expo y")
    case True
    define u :: rat where "u = 2 powi (expo y - 52)"
    have u0: "0 < u" by (simp add: u_def)
    have "x / u \<le> y / u" using assms(2) u0 by (simp add: divide_right_mono)
    then have "rne (x / u) \<le> rne (y / u)" by (rule rne_mono)
    then have "(of_int (rne (x / u)) :: rat) \<le> of_int (rne (y / u))"
      by (simp only: of_int_le_iff)
    then have "of_int (rne (x / u)) * u \<le> of_int (rne (y / u)) * u"
      using u0 by (intro mult_right_mono) simp_all
    then show ?thesis
      by (simp add: fl64_pos [OF assms(1)] fl64_pos [OF y0] True u_def [symmetric])
  next
    case False
    with expo_mono [OF assms] have "expo x + 1 \<le> expo y" by simp
    then have "(2::rat) powi (expo x + 1) \<le> 2 powi (expo y)"
      by (intro power_int_increasing) simp_all
    with fl64_upper [OF assms(1)] fl64_lower [OF y0] show ?thesis by linarith
  qed
qed

lemma fl64_nonneg: "0 \<le> x \<Longrightarrow> 0 \<le> fl64 x"
proof (cases "x = 0")
  case True
  then show ?thesis by (simp add: fl64_def)
next
  case False
  assume "0 \<le> x"
  with False have "0 < x" by simp
  from fl64_lower [OF this] have "(2::rat) powi (expo x) \<le> fl64 x" .
  moreover have "(0::rat) < 2 powi (expo x)" by simp
  ultimately show ?thesis by linarith
qed

lemma fl64_of_nat_small:
  assumes "m < 2 ^ 53"
  shows "fl64 (of_nat m) = of_nat m"
proof (cases "m = 0")
  case True
  then show ?thesis by (simp add: fl64_def)
next
  case False
  define x :: rat where "x = of_nat m"
  have x0: "0 < x" using False by (simp add: x_def)
  have "(of_nat m :: rat) < of_nat (2 ^ 53)"
    using assms by (simp only: of_nat_less_iff)
  then have "x < 2 powi 53" by (simp add: x_def)
  with expo_bounds(1) [OF x0] have "(2::rat) powi (expo x) < 2 powi 53" by linarith
  then have e: "expo x < 53" by (rule two_powi_less_cancel)
  define k where "k = nat (52 - expo x)"
  have ke: "expo x - 52 = - int k" using e by (simp add: k_def)
  have u: "(2::rat) powi (expo x - 52) = 1 / 2 ^ k"
    unfolding ke by (simp add: power_int_minus field_simps)
  have "x / (1 / 2 ^ k) = of_int (int (m * 2 ^ k))"
    by (simp add: x_def)
  then have "rne (x / (1 / 2 ^ k)) = int (m * 2 ^ k)"
    by (simp only: rne_of_int)
  then have "fl64 x = of_int (int (m * 2 ^ k)) * (1 / 2 ^ k)"
    by (simp only: fl64_pos [OF x0] u)
  also have "\<dots> = x" by (simp add: x_def)
  finally show ?thesis by (simp add: x_def)
qed

lemma expo_unique:
  assumes "0 < x" "2 powi e \<le> x" "x < 2 powi (e + 1)"
  shows "expo x = e"
proof -
  from expo_bounds [OF assms(1)] assms(2,3)
  have "(2::rat) powi e < 2 powi (expo x + 1)" "(2::rat) powi (expo x) < 2 powi (e + 1)"
    by linarith+
  then have "e < expo x + 1" "expo x < e + 1"
    using two_powi_less_cancel by blast+
  then show ?thesis by simp
qed

lemma expo_2_53: "expo 9007199254740992 = 53"
  by (rule expo_unique) simp_all

lemma expo_2_53_plus_1: "expo (9007199254740992 + 1) = 53"
  by (rule expo_unique) simp_all

lemma fl64_2_53: "fl64 9007199254740992 = 9007199254740992"
  by (simp add: fl64_def expo_2_53 rne_def Let_def)

lemma fl64_2_53_plus_1: "fl64 (9007199254740992 + 1) = 9007199254740992"
proof -
  have "fl64 (9007199254740992 + 1) =
          of_int (rne ((9007199254740992 + 1) / 2 powi (expo (9007199254740992 + 1) - 52))) *
          2 powi (expo (9007199254740992 + 1) - 52)"
    by (rule fl64_pos) simp
  also have "\<dots> = of_int (rne (9007199254740993 / 2)) * 2"
    unfolding expo_2_53_plus_1 by simp
  also have "rne (9007199254740993 / 2) = 4503599627370496"
  proof -
    have "\<lfloor>(9007199254740993::rat) / 2\<rfloor> = 4503599627370496"
      by (rule floor_unique) simp_all
    then show ?thesis
      by (simp add: rne_def Let_def)
  qed
  finally show ?thesis by simp
qed

lemma expo_1: "expo 1 = 0"
  by (rule expo_unique) simp_all

lemma fl64_1: "fl64 1 = 1"
  by (simp add: fl64_def expo_1 rne_def Let_def)

lemma expo_100: "expo 100 = 6"
  by (rule expo_unique) simp_all

lemma fl64_100: "fl64 100 = 100"
proof -
  have "fl64 100 = of_int (rne (100 / 2 powi (expo 100 - 52))) * 2 powi (expo 100 - 52)"
    by (rule fl64_pos) simp
  also have "\<dots> = of_int (rne (of_int 7036874417766400)) * (1 / 70368744177664)"
    unfolding expo_100 by (simp add: power_int_minus)
  finally show ?thesis
    unfolding rne_of_int by simp
qed

section \<open>Claims about the uptime percentage\<close>

lemma Uptime_floor:
  assumes "Attempt r \<noteq> 0" "0 \<le> fl64 (100 * fl64 (Success r / Attempt r))"
  shows "Uptime r = \<lfloor>fl64 (100 * fl64 (Success r / Attempt r)) + 1 / 2\<rfloor>"
proof -
  define x where "x = fl64 (100 * fl64 (Success r / Attempt r))"
  have "0 \<le> \<lfloor>x + 1 / 2\<rfloor>" using assms(2) by (simp add: x_def)
  then have "go_int (of_int \<lfloor>x + 1 / 2\<rfloor>) = \<lfloor>x + 1 / 2\<rfloor>"
    by (simp add: go_int_def)
  then show ?thesis
    using assms by (simp add: Uptime_def go_Round_def x_def)
qed

lemma fl64_le_1:
  assumes "0 \<le> x" "x \<le> 1"
  shows "0 \<le> fl64 x \<and> fl64 x \<le> 1"
proof (cases "x = 0")
  case True
  then show ?thesis by (simp add: fl64_def)
next
  case False
  with assms have "0 < x" by simp
  from fl64_mono [OF this assms(2)] fl64_nonneg [OF assms(1)] show ?thesis
    by (simp add: fl64_1)
qed

lemma fl64_le_100:
  assumes "0 \<le> x" "x \<le> 100"
  shows "0 \<le> fl64 x \<and> fl64 x \<le> 100"
proof (cases "x = 0")
  case True
  then show ?thesis by (simp add: fl64_def)
next
  case False
  with assms have "0 < x" by simp
  from fl64_mono [OF this assms(2)] fl64_nonneg [OF assms(1)] show ?thesis
    by (simp add: fl64_100)
qed

lemma Uptime_range:
  assumes "0 \<le> Success r" "Success r \<le> Attempt r"
  shows "0 \<le> Uptime r \<and> Uptime r \<le> 100"
proof (cases "Attempt r = 0")
  case True
  then show ?thesis by (simp add: Uptime_def)
next
  case False
  with assms have A: "0 < Attempt r" by simp
  define q where "q = fl64 (Success r / Attempt r)"
  define x where "x = fl64 (100 * q)"
  have "0 \<le> Success r / Attempt r" "Success r / Attempt r \<le> 1"
    using assms A by simp_all
  from fl64_le_1 [OF this] have q: "0 \<le> q" "q \<le> 1" by (simp_all add: q_def)
  then have "0 \<le> 100 * q" "100 * q \<le> 100" by simp_all
  from fl64_le_100 [OF this] have x: "0 \<le> x" "x \<le> 100" by (simp_all add: x_def)
  have u: "Uptime r = \<lfloor>x + 1 / 2\<rfloor>"
    using Uptime_floor [OF False] x(1) by (simp add: x_def q_def)
  have "0 \<le> \<lfloor>x + 1 / 2\<rfloor>" using x(1) by simp
  moreover have "\<lfloor>x + 1 / 2\<rfloor> \<le> 100"
  proof -
    have "x + 1 / 2 < of_int 101" using x(2) by simp
    then have "\<lfloor>x + 1 / 2\<rfloor> < 101" by (simp only: floor_less_iff)
    then show ?thesis by simp
  qed
  ultimately show ?thesis by (simp add: u)
qed

lemma Uptime_full:
  assumes "Attempt r \<noteq> 0" "Success r = Attempt r"
  shows "Uptime r = 100"
proof -
  have "Success r / Attempt r = 1" using assms by simp
  then have x: "fl64 (100 * fl64 (Success r / Attempt r)) = 100"
    by (simp add: fl64_1 fl64_100)
  have "\<lfloor>(100::rat) + 1 / 2\<rfloor> = 100"
    by (rule floor_unique) simp_all
  then show ?thesis
    using Uptime_floor [OF assms(1)] x by simp
qed

lemma nearest_from_close:
  fixes R :: int and a s :: nat and x :: rat
  assumes a: "0 < a"
    and close: "\<bar>x - 100 * of_nat s / of_nat a\<bar> * (2 * of_nat a) < 1"
    and R: "R = \<lfloor>x + 1 / 2\<rfloor>"
  shows "\<bar>of_int R - 100 * of_nat s / of_nat a\<bar> \<le> (1 / 2 :: rat)"
proof -
  define A :: rat where "A = of_nat a"
  define v :: rat where "v = 100 * of_nat s / A"
  have A0: "0 < A" using a by (simp add: A_def)
  have vA: "v * A = of_nat (100 * s)" using A0 by (simp add: v_def)
  have fl: "of_int R \<le> x + 1 / 2" "x + 1 / 2 < of_int R + 1"
    using floor_correct [of "x + 1 / 2"] by (simp_all add: R)
  from close have c: "\<bar>x - v\<bar> * (2 * A) < 1" by (simp add: v_def A_def)
  have c1: "(x - v) * (2 * A) < 1" "(v - x) * (2 * A) < 1"
  proof -
    have "(x - v) * (2 * A) \<le> \<bar>x - v\<bar> * (2 * A)" "(v - x) * (2 * A) \<le> \<bar>x - v\<bar> * (2 * A)"
      using A0 by (intro mult_right_mono; simp)+
    with c show "(x - v) * (2 * A) < 1" "(v - x) * (2 * A) < 1" by linarith+
  qed
  have up: "of_int R * (2 * A) \<le> (x + 1 / 2) * (2 * A)"
    using fl(1) A0 by (intro mult_right_mono) simp_all
  have lo: "(x + 1 / 2) * (2 * A) < (of_int R + 1) * (2 * A)"
    using fl(2) A0 by (intro mult_strict_right_mono) simp_all
  have "of_int R * (2 * A) < 2 * (v * A) + A + 1"
    using up c1(1) by (simp add: algebra_simps)
  then have "(of_int (R * (2 * int a)) :: rat) < of_int (int (200 * s + a + 1))"
    unfolding vA by (simp add: A_def)
  then have "R * (2 * int a) < int (200 * s + a + 1)"
    by (simp only: of_int_less_iff)
  then have "R * (2 * int a) \<le> int (200 * s + a)" by simp
  then have "(of_int (R * (2 * int a)) :: rat) \<le> of_int (int (200 * s + a))"
    by (simp only: of_int_le_iff)
  then have upper: "of_int R * (2 * A) \<le> 2 * (v * A) + A"
    unfolding vA by (simp add: A_def)
  have "2 * (v * A) - A - 1 < (of_int R + 1) * (2 * A) - 2 * A"
    using lo c1(2) by (simp add: algebra_simps)
  then have "2 * (v * A) - A - 1 < of_int R * (2 * A)"
    by (simp add: algebra_simps)
  then have "(of_int (int (200 * s)) :: rat) < of_int (R * (2 * int a) + int a + 1)"
    unfolding vA by (simp add: A_def)
  then have "int (200 * s) < R * (2 * int a) + int a + 1"
    by (simp only: of_int_less_iff)
  then have "int (200 * s) \<le> R * (2 * int a) + int a" by simp
  then have "(of_int (int (200 * s)) :: rat) \<le> of_int (R * (2 * int a) + int a)"
    by (simp only: of_int_le_iff)
  then have lower: "2 * (v * A) - A \<le> of_int R * (2 * A)"
    unfolding vA by (simp add: A_def)
  have "(of_int R - v) * (2 * A) \<le> 1 / 2 * (2 * A)" "(v - of_int R) * (2 * A) \<le> 1 / 2 * (2 * A)"
    using upper lower by (simp_all add: algebra_simps)
  then have "of_int R - v \<le> 1 / 2" "v - of_int R \<le> 1 / 2"
    using A0 by simp_all
  then have "\<bar>of_int R - v\<bar> \<le> 1 / 2"
    by linarith
  then show ?thesis
    by (simp only: v_def A_def)
qed


lemma Uptime_close:
  assumes a: "0 < a" "a \<le> 2 ^ 44" and s: "s \<le> a"
    and r: "Attempt r = of_nat a" "Success r = of_nat s"
  shows "\<bar>of_int (Uptime r) - 100 * of_nat s / of_nat a\<bar> \<le> (1 / 2 :: rat)"
proof (cases "s = 0")
  case True
  have "\<lfloor>(1::rat) / 2\<rfloor> = 0"
    by (rule floor_unique) simp_all
  then have "Uptime r = 0"
    using True a r by (simp add: Uptime_def fl64_def go_Round_def go_int_def)
  then show ?thesis using True by simp
next
  case False
  define A :: rat where "A = of_nat a"
  define t :: rat where "t = of_nat s / A"
  define q where "q = fl64 t"
  define x where "x = fl64 (100 * q)"
  have A0: "0 < A" using a by (simp add: A_def)
  have t0: "0 < t" using False A0 by (simp add: t_def)
  have "(of_nat s :: rat) \<le> of_nat a" using s by (simp only: of_nat_le_iff)
  then have t1: "t \<le> 1" using A0 by (simp add: t_def A_def)
  have "(0::rat) < 2 powi (expo t)" by simp
  with fl64_lower [OF t0] have q0: "0 < q"
    unfolding q_def by linarith
  have q1: "q \<le> 1" using fl64_le_1 [of t] t0 t1 by (simp add: q_def)
  have eq: "\<bar>q - t\<bar> \<le> 1 / 2 ^ 53"
  proof -
    have "\<bar>q - t\<bar> \<le> t / 2 ^ 53" unfolding q_def by (rule fl64_err [OF t0])
    also have "\<dots> \<le> 1 / 2 ^ 53" using t1 by (simp add: divide_right_mono)
    finally show ?thesis .
  qed
  have y0: "0 < 100 * q" using q0 by simp
  have ex: "\<bar>x - 100 * q\<bar> \<le> 100 / 2 ^ 53"
  proof -
    have "\<bar>x - 100 * q\<bar> \<le> 100 * q / 2 ^ 53" unfolding x_def by (rule fl64_err [OF y0])
    also have "\<dots> \<le> 100 / 2 ^ 53" using q1 by (simp add: divide_right_mono)
    finally show ?thesis .
  qed
  from ex eq have
    "x - 100 * q \<le> 100 / 2 ^ 53" "100 * q - x \<le> 100 / 2 ^ 53"
    "q - t \<le> 1 / 2 ^ 53" "t - q \<le> 1 / 2 ^ 53"
    by (simp_all only: abs_le_iff minus_diff_eq)
  then have "x - 100 * t \<le> 200 / 2 ^ 53" "100 * t - x \<le> 200 / 2 ^ 53"
    by linarith+
  then have d: "\<bar>x - 100 * t\<bar> \<le> 200 / 2 ^ 53"
    by (simp only: abs_le_iff minus_diff_eq)
  have "(of_nat a :: rat) \<le> of_nat (2 ^ 44)" using a(2) by (simp only: of_nat_le_iff)
  then have Ab: "A \<le> 2 ^ 44" by (simp add: A_def)
  have "\<bar>x - 100 * t\<bar> * (2 * A) \<le> 200 / 2 ^ 53 * (2 * 2 ^ 44)"
    using d Ab A0 by (intro mult_mono) simp_all
  also have "\<dots> < 1" by simp
  finally have close: "\<bar>x - 100 * of_nat s / of_nat a\<bar> * (2 * of_nat a) < 1"
    by (simp add: t_def A_def)
  have x0: "0 \<le> x" unfolding x_def using y0 by (intro fl64_nonneg) simp
  have An: "Attempt r \<noteq> 0" using r a by simp
  have "Uptime r = \<lfloor>x + 1 / 2\<rfloor>"
    using Uptime_floor [OF An] x0 r by (simp add: x_def q_def t_def A_def)
  from nearest_from_close [OF a(1) close this] show ?thesis .
qed

text \<open>
  Claim C2, as stated, fails: after 23 successes in 40 attempts the exact percentage is
  57.5, which \<^verbatim>\<open>math.Round\<close> (halves away from zero) and rounding to even both turn into
  58; the float64 quotient 23 / 40 lies just below 0.575, its float64 product with 100
  just below 57.5, and \<^verbatim>\<open>Uptime\<close> returns 57.
\<close>

theorem Uptime_tie_rounds_down:
  "Uptime \<lparr>Attempt = 40, Success = 23\<rparr> = 57 \<and>
   go_int (go_Round (100 * (23 / 40))) = 58 \<and>
   rne (100 * (23 / 40)) = 58"
  by code_simp

text \<open>
  Claim C2, amended. For counters that hold the natural numbers \<open>s \<le> a\<close>: the uptime is 0
  when there was no attempt, 100 when every attempt succeeded, always between 0 and 100,
  and, up to \<open>2 ^ 44\<close> attempts, an integer nearest to \<open>100 * s / a\<close>: it differs from it by
  at most one half. Where \<open>100 * s / a\<close> lies exactly between two integers either of them
  may be returned.
\<close>

theorem Uptime_nearest_integer:
  assumes "Attempt r = of_nat a" "Success r = of_nat s" "s \<le> a"
  shows "(a = 0 \<longrightarrow> Uptime r = 0) \<and>
         (0 < a \<and> s = a \<longrightarrow> Uptime r = 100) \<and>
         0 \<le> Uptime r \<and> Uptime r \<le> 100 \<and>
         (0 < a \<and> a \<le> 2 ^ 44 \<longrightarrow>
            \<bar>of_int (Uptime r) - 100 * of_nat s / of_nat a\<bar> \<le> (1 / 2 :: rat))"
proof -
  have "(of_nat s :: rat) \<le> of_nat a" using assms(3) by (simp only: of_nat_le_iff)
  then have le: "0 \<le> Success r" "Success r \<le> Attempt r"
    using assms(1,2) by simp_all
  have z: "a = 0 \<longrightarrow> Uptime r = 0"
    using assms(1) by (simp add: Uptime_def)
  have f: "0 < a \<and> s = a \<longrightarrow> Uptime r = 100"
    using assms(1,2) by (auto intro: Uptime_full)
  have c: "0 < a \<and> a \<le> 2 ^ 44 \<longrightarrow>
            \<bar>of_int (Uptime r) - 100 * of_nat s / of_nat a\<bar> \<le> (1 / 2 :: rat)"
    using Uptime_close [of a s r] assms by blast
  from z f c Uptime_range [OF le] show ?thesis by blast
qed

text \<open>C2 at 23 successes in 40 attempts.\<close>

theorem Uptime_nearest_integer_witness:
  "0 \<le> Uptime \<lparr>Attempt = 40, Success = 23\<rparr> \<and>
   Uptime \<lparr>Attempt = 40, Success = 23\<rparr> \<le> 100 \<and>
   \<bar>of_int (Uptime \<lparr>Attempt = 40, Success = 23\<rparr>) - 100 * 23 / 40\<bar> \<le> (1 / 2 :: rat)"
  using Uptime_nearest_integer [of "\<lparr>Attempt = 40, Success = 23\<rparr>" 40 23]
  by simp

section \<open>Properties of the startup loop\<close>

lemma main_init_code: "main_init lib zero cfg sites = Inl (msg, code) \<Longrightarrow> code = - 1"
proof (induction cfg arbitrary: sites)
  case Nil
  then show ?case by simp
next
  case (Cons hc rest)
  then show ?case
    by (auto split: if_splits sum.splits prod.splits simp add: Let_def)
qed

lemma main_init_Cons_ok:
  "Name hc \<noteq> [] \<Longrightarrow> URL hc \<noteq> [] \<Longrightarrow> url_Parse lib (URL hc) = Inr a \<Longrightarrow>
   main_init lib zero (hc # rest) sites =
     (case main_init lib zero rest (sites(Hostname a \<mapsto> zero)) of
        Inl e \<Rightarrow> Inl e
      | Inr (hcs, s') \<Rightarrow> Inr (hc\<lparr>hostname := Hostname a\<rparr> # hcs, s'))"
  by (simp add: Let_def)

lemma main_init_Cons_bad:
  "bad_entry lib hc \<Longrightarrow> \<exists>e. main_init lib zero (hc # rest) sites = Inl e"
  by (cases "url_Parse lib (URL hc)") (auto simp add: bad_entry_def)

lemma main_init_fails_iff:
  "(\<exists>e. main_init lib zero cfg sites = Inl e) \<longleftrightarrow> (\<exists>hc\<in>set cfg. bad_entry lib hc)"
proof (induction cfg arbitrary: sites)
  case Nil
  then show ?case by simp
next
  case (Cons hc rest)
  show ?case
  proof (cases "bad_entry lib hc")
    case True
    with main_init_Cons_bad [OF True] show ?thesis
      by auto
  next
    case False
    then obtain a where a: "url_Parse lib (URL hc) = Inr a" and n: "Name hc \<noteq> []" "URL hc \<noteq> []"
      by (cases "url_Parse lib (URL hc)") (auto simp add: bad_entry_def)
    have "(\<exists>e. main_init lib zero (hc # rest) sites = Inl e) \<longleftrightarrow>
          (\<exists>e. main_init lib zero rest (sites(Hostname a \<mapsto> zero)) = Inl e)"
      unfolding main_init_Cons_ok [OF n a]
      by (cases "main_init lib zero rest (sites(Hostname a \<mapsto> zero))") auto
    also have "\<dots> \<longleftrightarrow> (\<exists>hc\<in>set rest. bad_entry lib hc)"
      by (rule Cons.IH)
    finally show ?thesis
      using False by simp
  qed
qed

lemma main_init_result:
  "main_init lib zero cfg sites = Inr (hcs, sites') \<Longrightarrow>
     hcs = map (\<lambda>hc. hc\<lparr>hostname := host_of lib hc\<rparr>) cfg \<and>
     sites' = (\<lambda>h. if h \<in> host_of lib ` set cfg then Some zero else sites h)"
proof (induction cfg arbitrary: sites hcs sites')
  case Nil
  then show ?case by auto
next
  case (Cons hc rest)
  from Cons.prems obtain a where a: "url_Parse lib (URL hc) = Inr a"
    by (cases "url_Parse lib (URL hc)") (auto split: if_splits)
  from Cons.prems have n: "Name hc \<noteq> []" "URL hc \<noteq> []"
    by (auto split: if_splits)
  from Cons.prems obtain hcs0 where
    r: "main_init lib zero rest (sites(Hostname a \<mapsto> zero)) = Inr (hcs0, sites')"
    and h: "hcs = hc\<lparr>hostname := Hostname a\<rparr> # hcs0"
    unfolding main_init_Cons_ok [OF n a]
    by (cases "main_init lib zero rest (sites(Hostname a \<mapsto> zero))") auto
  from Cons.IH [OF r] have
    h0: "hcs0 = map (\<lambda>hc. hc\<lparr>hostname := host_of lib hc\<rparr>) rest"
    and s: "sites' = (\<lambda>h. if h \<in> host_of lib ` set rest then Some zero
                           else (sites(Hostname a \<mapsto> zero)) h)"
    by simp_all
  have ha: "host_of lib hc = Hostname a"
    by (simp add: host_of_def a)
  show ?case
    using h h0 s ha by (auto simp add: fun_eq_iff)
qed

section \<open>The stores of the polling loop and the ideal counters\<close>

lemma sat53_mono: "m \<le> n \<Longrightarrow> sat53 m \<le> sat53 n"
  by (simp add: sat53_def min_le_iff_disj)

lemma fl64_succ_sat: "fl64 (of_nat (sat53 n) + 1) = of_nat (sat53 (Suc n))"
proof -
  have p: "(2::nat) ^ 53 = 9007199254740992" by simp
  consider "Suc n < 9007199254740992" | "Suc n = 9007199254740992" | "9007199254740992 \<le> n"
    by linarith
  then show ?thesis
  proof cases
    case 1
    then have "fl64 (of_nat (Suc n)) = of_nat (Suc n)"
      by (intro fl64_of_nat_small) (simp only: p)
    then show ?thesis using 1 by (simp add: sat53_def add.commute)
  next
    case 2
    then have "(of_nat (Suc n) :: rat) = 9007199254740992" by (simp only: of_nat_numeral)
    then have "fl64 (of_nat (Suc n)) = of_nat (Suc n)"
      by (simp only: fl64_2_53)
    then show ?thesis using 2 by (simp add: sat53_def add.commute)
  next
    case 3
    then have "sat53 n = 9007199254740992" "sat53 (Suc n) = 9007199254740992"
      by (simp_all add: sat53_def)
    then show ?thesis by (simp only: fl64_2_53_plus_1 of_nat_numeral)
  qed
qed

lemma record_result_ideal:
  assumes "t h = Some c"
  shows "record_result (as_Sites t) h b =
           Returned (as_Sites (count1 t h b))"
  using assms
  by (auto simp add: record_result_def count1_def Let_def fun_eq_iff as_Result_def as_Sites_def fl64_succ_sat)

lemma count1_dom: "dom (count1 t h b) = dom t"
  by (auto simp add: count1_def split: option.splits)

lemma run_goroutines_ideal:
  assumes "hostname ` set hcs \<subseteq> dom t"
  shows "run_goroutines (\<lambda>i hc. Returned (out i hc)) hcs sched
           (tr, as_Sites t) =
         Returned (tr @ map (\<lambda>i. Probed i (out i (hcs ! i))) (filter (\<lambda>i. i < length hcs) sched),
                   as_Sites (count_list out hcs sched t))"
  using assms
proof (induction sched arbitrary: tr t)
  case Nil
  then show ?case by simp
next
  case (Cons i js)
  show ?case
  proof (cases "i < length hcs")
    case False
    then show ?thesis using Cons.IH [OF Cons.prems] by simp
  next
    case True
    then have "hcs ! i \<in> set hcs" by simp
    then have "hostname (hcs ! i) \<in> dom t" using Cons.prems by blast
    then obtain c where c: "t (hostname (hcs ! i)) = Some c" by auto
    have g: "goroutine (Returned \<circ> out i) i (hcs ! i) (tr, as_Sites t) =
             Returned (tr @ [Probed i (out i (hcs ! i))],
                       as_Sites (count1 t (hostname (hcs ! i)) (out i (hcs ! i))))"
      using record_result_ideal [of t "hostname (hcs ! i)" c "out i (hcs ! i)"] c
      by (simp add: goroutine_def)
    have d: "hostname ` set hcs \<subseteq> dom (count1 t (hostname (hcs ! i)) (out i (hcs ! i)))"
      using Cons.prems by (simp add: count1_dom)
    have e: "(\<lambda>hc. Returned (out i hc)) = Returned \<circ> out i" by (simp add: fun_eq_iff)
    show ?thesis
      using True g Cons.IH [OF d] by (simp add: e)
  qed
qed


lemma count1_apply:
  "count1 t h' b h =
     (if h = h' then map_option (\<lambda>c. (Suc (fst c), if b then Suc (snd c) else snd c)) (t h)
      else t h)"
  by (auto simp add: count1_def split: option.splits)

lemma count_list_closed:
  "count_list out hcs sched t h =
     map_option (\<lambda>c.
        (fst c + length (filter (\<lambda>i. i < length hcs \<and> hostname (hcs ! i) = h) sched),
         snd c + length (filter (\<lambda>i. i < length hcs \<and> hostname (hcs ! i) = h \<and> out i (hcs ! i)) sched)))
       (t h)"
proof (induction sched arbitrary: t)
  case Nil
  then show ?case by (simp add: option.map_ident)
next
  case (Cons i js)
  show ?case
  proof (cases "i < length hcs")
    case False
    then show ?thesis using Cons.IH [of t] by simp
  next
    case True
    define t' where "t' = count1 t (hostname (hcs ! i)) (out i (hcs ! i))"
    have "count_list out hcs (i # js) t h = count_list out hcs js t' h"
      using True by (simp add: t'_def)
    also have "\<dots> = map_option (\<lambda>c.
        (fst c + length (filter (\<lambda>i. i < length hcs \<and> hostname (hcs ! i) = h) js),
         snd c + length (filter (\<lambda>i. i < length hcs \<and> hostname (hcs ! i) = h \<and> out i (hcs ! i)) js)))
       (t' h)"
      by (rule Cons.IH)
    also have "t' h = (if h = hostname (hcs ! i)
          then map_option (\<lambda>c. (Suc (fst c), if out i (hcs ! i) then Suc (snd c) else snd c)) (t h)
          else t h)"
      unfolding t'_def by (rule count1_apply)
    finally show ?thesis
      using True by (cases "t h") auto
  qed
qed

lemma length_filter_perm:
  "mset xs = mset ys \<Longrightarrow> length (filter P xs) = length (filter P ys)"
proof -
  assume "mset xs = mset ys"
  then have "size (mset (filter P xs)) = size (mset (filter P ys))"
    by (simp only: mset_filter)
  then show ?thesis by (simp only: size_mset)
qed

lemma is_schedule_set: "is_schedule hcs sched \<Longrightarrow> set sched = {0..<length hcs}"
  using mset_eq_setD [of sched "[0..<length hcs]"] by (simp add: is_schedule_def)

lemma is_schedule_filter:
  assumes "is_schedule hcs sched"
  shows "filter (\<lambda>i. i < length hcs) sched = sched"
  using is_schedule_set [OF assms] by (auto simp add: filter_id_conv)

lemma is_schedule_length: "is_schedule hcs sched \<Longrightarrow> length sched = length hcs"
  using mset_eq_length [of sched "[0..<length hcs]"] by (simp add: is_schedule_def)

lemma count_list_schedule:
  assumes "is_schedule hcs sched"
  shows "count_list out hcs sched t = cycle_count out hcs t"
proof
  fix h
  have m: "mset sched = mset [0..<length hcs]"
    using assms by (simp add: is_schedule_def)
  have a: "length (filter (\<lambda>i. i < length hcs \<and> hostname (hcs ! i) = h) sched) = attempts_of hcs h"
    unfolding attempts_of_def length_filter_perm [OF m]
    by (intro arg_cong [where f = length] filter_cong) auto
  have s: "length (filter (\<lambda>i. i < length hcs \<and> hostname (hcs ! i) = h \<and> out i (hcs ! i)) sched) =
           successes_of out hcs h"
    unfolding successes_of_def length_filter_perm [OF m]
    by (intro arg_cong [where f = length] filter_cong) auto
  show "count_list out hcs sched t h = cycle_count out hcs t h"
    unfolding count_list_closed a s by (simp add: cycle_count_def)
qed

lemma cycle_ideal:
  assumes "is_schedule hcs sched" "hostname ` set hcs \<subseteq> dom t"
  shows "cycle (\<lambda>i hc. Returned (out i hc)) hcs sched (tr, as_Sites t) =
         Returned (tr @ map (\<lambda>i. Probed i (out i (hcs ! i))) sched @
                     [Reported (report (as_Sites (cycle_count out hcs t))),
                      Slept (outputTimeout * Second)],
                   as_Sites (cycle_count out hcs t))"
  unfolding cycle_def run_goroutines_ideal [OF assms(2)]
    is_schedule_filter [OF assms(1)] count_list_schedule [OF assms(1)]
  by simp

lemma cycle_count_dom: "dom (cycle_count out hcs t) = dom t"
  by (auto simp add: cycle_count_def dom_def)

lemma loop_count_dom: "dom (loop_count out hcs n t) = dom t"
  by (induction n) (simp_all add: cycle_count_dom)

lemma successes_le_attempts: "successes_of out hcs h \<le> attempts_of hcs h"
proof -
  have "filter (\<lambda>i. hostname (hcs ! i) = h \<and> out i (hcs ! i)) [0..<length hcs] =
        filter (\<lambda>i. out i (hcs ! i)) (filter (\<lambda>i. hostname (hcs ! i) = h) [0..<length hcs])"
    by (simp add: conj_commute)
  then show ?thesis
    unfolding successes_of_def attempts_of_def by (simp only: length_filter_le)
qed

lemma main_loop_ideal:
  assumes "\<forall>c<n. is_schedule hcs (sched c)" "hostname ` set hcs \<subseteq> dom t"
  shows "\<exists>tr'. main_loop (\<lambda>c i hc. Returned (out c i hc)) hcs sched n (tr, as_Sites t) =
                 Returned (tr', as_Sites (loop_count out hcs n t)) \<and>
               length (filter is_Probed tr') = length (filter is_Probed tr) + n * length hcs \<and>
               length (filter is_Reported tr') = length (filter is_Reported tr) + n"
  using assms(1)
proof (induction n)
  case 0
  then show ?case by simp
next
  case (Suc n)
  then obtain tr' where
    run: "main_loop (\<lambda>c i hc. Returned (out c i hc)) hcs sched n (tr, as_Sites t) =
            Returned (tr', as_Sites (loop_count out hcs n t))"
    and p: "length (filter is_Probed tr') = length (filter is_Probed tr) + n * length hcs"
    and r: "length (filter is_Reported tr') = length (filter is_Reported tr) + n"
    by auto
  have sch: "is_schedule hcs (sched n)" using Suc.prems by simp
  have d: "hostname ` set hcs \<subseteq> dom (loop_count out hcs n t)"
    using assms(2) by (simp add: loop_count_dom)
  note c = cycle_ideal [OF sch d, of "out n" tr']
  have fp: "filter is_Probed (map (\<lambda>i. Probed i (out n i (hcs ! i))) (sched n)) =
            map (\<lambda>i. Probed i (out n i (hcs ! i))) (sched n)"
       "filter is_Reported (map (\<lambda>i. Probed i (out n i (hcs ! i))) (sched n)) = []"
    by (simp_all add: filter_map comp_def)
  show ?case
    using run c p r fp is_schedule_length [OF sch]
    by (simp del: cycle_count_def)
qed

lemma check_returns: "check lib net site = Returned (check lib net site = Returned True)"
proof -
  have "\<exists>b. check lib net site = Returned b"
  proof (cases "http_NewRequest lib (if Method site \<noteq> [] then Method site else ''GET'') (URL site) (Body site)")
    case (Inl e)
    then have "check lib net site = Returned False" by (simp add: check_def)
    then show ?thesis by blast
  next
    case (Inr req)
    obtain req' where "(case Headers site of None \<Rightarrow> Returned (Some req)
        | Some hs \<Rightarrow> add_headers lib (Some req) hs) = Returned (Some req')"
      using add_headers_Some [of lib req] by (cases "Headers site") auto
    with Inr show ?thesis
      by (auto simp add: check_def split: sum.splits)
  qed
  then show ?thesis by auto
qed

section \<open>Claims about startup and failures\<close>

lemma main_init_start:
  assumes "\<forall>hc\<in>set cfg. \<not> bad_entry lib hc"
  shows "main_init lib (as_Result (0, 0)) cfg Map.empty =
           Inr (map (\<lambda>hc. hc\<lparr>hostname := host_of lib hc\<rparr>) cfg,
                as_Sites (\<lambda>h. if h \<in> host_of lib ` set cfg then Some (0, 0) else None))"
proof -
  have "\<not> (\<exists>e. main_init lib (as_Result (0, 0)) cfg Map.empty = Inl e)"
    using assms main_init_fails_iff [of lib "as_Result (0, 0)" cfg Map.empty] by blast
  then obtain hcs sites where
    r: "main_init lib (as_Result (0, 0)) cfg Map.empty = Inr (hcs, sites)"
    by (cases "main_init lib (as_Result (0, 0)) cfg Map.empty") auto
  from main_init_result [OF r] show ?thesis
    unfolding r by (auto simp add: as_Sites_def fun_eq_iff)
qed

lemma as_Result_zero: "as_Result (0, 0) = \<lparr>Attempt = 0, Success = 0\<rparr>"
  by (simp add: as_Result_def sat53_def)

lemma main_fails:
  assumes "\<exists>hc\<in>set cfg. bad_entry lib hc"
  shows "\<exists>msg. \<forall>world sched n. main lib world sched cfg n = Inl (msg, - 1)"
proof -
  from assms obtain e where
    e: "main_init lib \<lparr>Attempt = 0, Success = 0\<rparr> cfg Map.empty = Inl e"
    using main_init_fails_iff [of lib "\<lparr>Attempt = 0, Success = 0\<rparr>" cfg Map.empty] by blast
  obtain msg code where mc: "e = (msg, code)" by (cases e)
  from main_init_code [OF e [unfolded mc]] have "code = - 1" .
  with e mc show ?thesis by (auto simp add: main_def)
qed

lemma main_runs:
  assumes ok: "\<forall>hc\<in>set cfg. \<not> bad_entry lib hc"
    and sch: "\<forall>c<n. is_schedule cfg (sched c)"
  shows "\<exists>tr. main lib world sched cfg n =
           Inr (Returned (tr,
             as_Sites (loop_count (\<lambda>c i hc. check lib (world c i) hc = Returned True)
               (map (\<lambda>hc. hc\<lparr>hostname := host_of lib hc\<rparr>) cfg) n
               (\<lambda>h. if h \<in> host_of lib ` set cfg then Some (0, 0) else None)))) \<and>
         length (filter is_Probed tr) = n * length cfg \<and>
         length (filter is_Reported tr) = n"
proof -
  define hcs where "hcs = map (\<lambda>hc. hc\<lparr>hostname := host_of lib hc\<rparr>) cfg"
  define t0 :: "string \<rightharpoonup> nat \<times> nat"
    where "t0 = (\<lambda>h. if h \<in> host_of lib ` set cfg then Some (0, 0) else None)"
  define out where "out = (\<lambda>c i hc. check lib (world c i) hc = Returned True)"
  have init: "main_init lib \<lparr>Attempt = 0, Success = 0\<rparr> cfg Map.empty = Inr (hcs, as_Sites t0)"
    using main_init_start [OF ok] by (simp add: as_Result_zero hcs_def t0_def)
  have p: "(\<lambda>c i. check lib (world c i)) = (\<lambda>c i hc. Returned (out c i hc))"
    using check_returns by (simp add: out_def fun_eq_iff)
  have sch': "\<forall>c<n. is_schedule hcs (sched c)"
    using sch by (simp add: is_schedule_def hcs_def)
  have d: "hostname ` set hcs \<subseteq> dom t0"
    by (auto simp add: hcs_def t0_def)
  from main_loop_ideal [OF sch' d, of out "[]"] obtain tr where
    "main_loop (\<lambda>c i hc. Returned (out c i hc)) hcs sched n ([], as_Sites t0) =
       Returned (tr, as_Sites (loop_count out hcs n t0))"
    "length (filter is_Probed tr) = n * length hcs"
    "length (filter is_Reported tr) = n"
    by auto
  then show ?thesis
    unfolding main_def init p
    by (auto simp add: hcs_def t0_def out_def)
qed

text \<open>
  Claim C6, as stated, fails: \<^verbatim>\<open>url.Parse\<close> accepts \<^verbatim>\<open>foo\<close> as a reference without a host,
  so no hostname can be extracted from it, and the startup loop accepts the descriptor
  and creates a bucket for the empty hostname.
\<close>

theorem main_init_accepts_empty_hostname:
  "Name (demo_site ''GET'' ''foo'' None) \<noteq> [] \<and>
   url_Parse demo_lib (URL (demo_site ''GET'' ''foo'' None)) = Inr \<lparr>Hostname = []\<rparr> \<and>
   main_init demo_lib \<lparr>Attempt = 0, Success = 0\<rparr> [demo_site ''GET'' ''foo'' None] Map.empty =
     Inr ([demo_site ''GET'' ''foo'' None], [[] \<mapsto> \<lparr>Attempt = 0, Success = 0\<rparr>])"
  by (simp add: demo_site_def demo_lib_def)

text \<open>
  Claim C6, amended. \<^verbatim>\<open>main\<close> prints an error and exits with code -1 exactly when some
  descriptor has an empty name or an empty URL or a URL on which \<^verbatim>\<open>url.Parse\<close> returns an
  error; otherwise it enters the polling loop, whether a hostname can be extracted or not.
\<close>

theorem main_refuses_iff:
  "(\<exists>msg. main lib world sched cfg n = Inl (msg, - 1)) =
     (\<exists>hc\<in>set cfg. Name hc = [] \<or> URL hc = [] \<or> isl (url_Parse lib (URL hc))) \<and>
   (\<exists>st. main lib world sched cfg n = Inr st) =
     (\<forall>hc\<in>set cfg. Name hc \<noteq> [] \<and> URL hc \<noteq> [] \<and> \<not> isl (url_Parse lib (URL hc)))"
proof (cases "\<exists>hc\<in>set cfg. bad_entry lib hc")
  case True
  from main_fails [OF True] obtain msg where
    "main lib world sched cfg n = Inl (msg, - 1)" by blast
  with True show ?thesis by (auto simp add: bad_entry_def)
next
  case False
  then have "\<not> (\<exists>e. main_init lib \<lparr>Attempt = 0, Success = 0\<rparr> cfg Map.empty = Inl e)"
    using main_init_fails_iff [of lib "\<lparr>Attempt = 0, Success = 0\<rparr>" cfg Map.empty] by blast
  then obtain st where "main lib world sched cfg n = Inr st"
    by (cases "main_init lib \<lparr>Attempt = 0, Success = 0\<rparr> cfg Map.empty")
       (auto simp add: main_def)
  with False show ?thesis by (auto simp add: bad_entry_def)
qed

text \<open>C6 at a configuration whose only descriptor has no URL.\<close>

theorem main_refuses_iff_witness:
  "\<exists>msg. main demo_lib (demo_world 200 200) (demo_sched [0]) [demo_site ''GET'' [] None] 1 =
     Inl (msg, - 1)"
proof -
  have "\<exists>hc\<in>set [demo_site ''GET'' [] None].
          Name hc = [] \<or> URL hc = [] \<or> isl (url_Parse demo_lib (URL hc))"
    by (simp add: demo_site_def)
  with main_refuses_iff [of demo_lib "demo_world 200 200" "demo_sched [0]"
      "[demo_site ''GET'' [] None]" 1]
  show ?thesis by blast
qed

text \<open>
  Claim C7. If some descriptor has no name or no URL, \<^verbatim>\<open>main\<close> exits with a code that is
  not 0, and it does so whatever the network would answer and however many cycles are
  observed: no probe is made and no cycle begins. If the startup succeeds, then whatever
  the network answers (every probe may fail) the process neither exits nor panics: after
  \<open>n\<close> cycles it has made all \<open>n * N\<close> probes of its \<open>N\<close> descriptors and printed \<open>n\<close>
  reports.
\<close>

theorem main_fatal_only_at_startup:
  "((\<exists>hc\<in>set cfg. Name hc = [] \<or> URL hc = []) \<longrightarrow>
      (\<exists>msg code. code \<noteq> 0 \<and>
         (\<forall>world sched n. main lib world sched cfg n = Inl (msg, code)))) \<and>
   ((\<forall>hc\<in>set cfg. Name hc \<noteq> [] \<and> URL hc \<noteq> [] \<and> \<not> isl (url_Parse lib (URL hc))) \<and>
    (\<forall>c<n. is_schedule cfg (sched c)) \<longrightarrow>
      (\<exists>tr sites. main lib world sched cfg n = Inr (Returned (tr, sites)) \<and>
         length (filter is_Probed tr) = n * length cfg \<and>
         length (filter is_Reported tr) = n))"
proof (intro conjI impI)
  assume "\<exists>hc\<in>set cfg. Name hc = [] \<or> URL hc = []"
  then have "\<exists>hc\<in>set cfg. bad_entry lib hc" by (auto simp add: bad_entry_def)
  from main_fails [OF this] obtain msg where
    "\<forall>world sched n. main lib world sched cfg n = Inl (msg, - 1)" ..
  then show "\<exists>msg code. code \<noteq> 0 \<and>
         (\<forall>world sched n. main lib world sched cfg n = Inl (msg, code))"
    by (intro exI [of _ msg] exI [of _ "- 1"]) simp
next
  assume a: "(\<forall>hc\<in>set cfg. Name hc \<noteq> [] \<and> URL hc \<noteq> [] \<and> \<not> isl (url_Parse lib (URL hc))) \<and>
    (\<forall>c<n. is_schedule cfg (sched c))"
  then have ok: "\<forall>hc\<in>set cfg. \<not> bad_entry lib hc" by (simp add: bad_entry_def)
  from a have sch: "\<forall>c<n. is_schedule cfg (sched c)" by simp
  from main_runs [OF ok sch, of world] show
    "\<exists>tr sites. main lib world sched cfg n = Inr (Returned (tr, sites)) \<and>
         length (filter is_Probed tr) = n * length cfg \<and>
         length (filter is_Reported tr) = n"
    by blast
qed

text \<open>
  C7 at a configuration whose second descriptor has no URL, and at a configuration of two
  descriptors on a network that refuses every connection, observed for two cycles.
\<close>

theorem main_fatal_only_at_startup_witness:
  "(\<exists>msg code. code \<noteq> 0 \<and>
      main demo_lib (\<lambda>c i. demo_down) (demo_sched [1, 0])
        [demo_site ''GET'' ''http://b.example.com/'' None, demo_site ''GET'' [] None] 2 =
      Inl (msg, code)) \<and>
   (\<exists>tr sites.
      main demo_lib (\<lambda>c i. demo_down) (demo_sched [1, 0])
        [demo_site ''GET'' ''http://a.example.com/x'' None,
         demo_site ''GET'' ''http://b.example.com/'' None] 2 =
      Inr (Returned (tr, sites)) \<and>
      length (filter is_Probed tr) = 4 \<and> length (filter is_Reported tr) = 2)"
proof -
  let ?bad = "[demo_site ''GET'' ''http://b.example.com/'' None, demo_site ''GET'' [] None]"
  let ?good = "[demo_site ''GET'' ''http://a.example.com/x'' None,
         demo_site ''GET'' ''http://b.example.com/'' None]"
  have h1: "\<exists>hc\<in>set ?bad. Name hc = [] \<or> URL hc = []"
    by (simp add: demo_site_def)
  have h2: "(\<forall>hc\<in>set ?good. Name hc \<noteq> [] \<and> URL hc \<noteq> [] \<and> \<not> isl (url_Parse demo_lib (URL hc))) \<and>
    (\<forall>c<2. is_schedule ?good (demo_sched [1, 0] c))"
    by (simp add: demo_site_def demo_lib_def is_schedule_def demo_sched_def upt_rec)
  from main_fatal_only_at_startup [of ?bad demo_lib 2 "demo_sched [1, 0]" "\<lambda>c i. demo_down"] h1
  have a: "\<exists>msg code. code \<noteq> 0 \<and>
      main demo_lib (\<lambda>c i. demo_down) (demo_sched [1, 0]) ?bad 2 = Inl (msg, code)"
    by blast
  from main_fatal_only_at_startup [of ?good demo_lib 2 "demo_sched [1, 0]" "\<lambda>c i. demo_down"] h2
  have b: "\<exists>tr sites.
      main demo_lib (\<lambda>c i. demo_down) (demo_sched [1, 0]) ?good 2 = Inr (Returned (tr, sites)) \<and>
      length (filter is_Probed tr) = 4 \<and> length (filter is_Reported tr) = 2"
    by simp
  from a b show ?thesis by blast
qed

section \<open>Claims about one cycle\<close>

lemma check_ignores_hostname: "check lib net (hc\<lparr>hostname := h\<rparr>) = check lib net hc"
  by (simp add: check_def cong: option.case_cong outcome.case_cong sum.case_cong)

lemma main_one_cycle:
  assumes ok: "\<forall>hc\<in>set cfg. \<not> bad_entry lib hc"
    and sch: "is_schedule cfg sched0"
    and s0: "sched 0 = sched0"
  shows "main lib world sched cfg 1 =
           (let hcs = map (\<lambda>hc. hc\<lparr>hostname := host_of lib hc\<rparr>) cfg;
                out = (\<lambda>i hc. check lib (world 0 i) hc = Returned True);
                sites = as_Sites (cycle_count out hcs
                  (\<lambda>h. if h \<in> host_of lib ` set cfg then Some (0, 0) else None))
            in Inr (Returned (map (\<lambda>i. Probed i (out i (hcs ! i))) sched0 @
                            [Reported (report sites), Slept (outputTimeout * Second)],
                          sites)))"
proof -
  define hcs where "hcs = map (\<lambda>hc. hc\<lparr>hostname := host_of lib hc\<rparr>) cfg"
  define out where "out = (\<lambda>i hc. check lib (world 0 i) hc = Returned True)"
  define t0 :: "string \<rightharpoonup> nat \<times> nat"
    where "t0 = (\<lambda>h. if h \<in> host_of lib ` set cfg then Some (0, 0) else None)"
  have init: "main_init lib \<lparr>Attempt = 0, Success = 0\<rparr> cfg Map.empty = Inr (hcs, as_Sites t0)"
    using main_init_start [OF ok] by (simp add: as_Result_zero hcs_def t0_def)
  have p: "check lib (world 0 i) = (\<lambda>hc. Returned (out i hc))" for i
    using check_returns by (simp add: out_def fun_eq_iff)
  have sch': "is_schedule hcs sched0"
    using sch by (simp add: is_schedule_def hcs_def)
  have d: "hostname ` set hcs \<subseteq> dom t0"
    by (auto simp add: hcs_def t0_def)
  have "main lib world sched cfg 1 =
          Inr (cycle (\<lambda>i hc. Returned (out i hc)) hcs sched0 ([], as_Sites t0))"
    by (simp add: main_def init p s0)
  then show ?thesis
    unfolding cycle_ideal [OF sch' d] by (simp add: hcs_def out_def t0_def Let_def)
qed

lemma filter_nth_length:
  "length (filter (\<lambda>i. P (xs ! i)) [0..<length xs]) = length (filter P xs)"
proof -
  have "filter P xs = filter P (map ((!) xs) [0..<length xs])"
    by (simp only: map_nth)
  also have "\<dots> = map ((!) xs) (filter (\<lambda>i. P (xs ! i)) [0..<length xs])"
    by (simp add: filter_map comp_def)
  finally show ?thesis by simp
qed

lemma attempts_of_eq: "attempts_of hcs h = length (filter (\<lambda>hc. hostname hc = h) hcs)"
  unfolding attempts_of_def by (rule filter_nth_length)

lemma attempts_of_distinct:
  assumes "distinct (map hostname hcs)" "h \<in> hostname ` set hcs"
  shows "attempts_of hcs h = 1"
proof -
  have "length (filter (\<lambda>x. x = h) (map hostname hcs)) = card ({x. x = h} \<inter> set (map hostname hcs))"
    using assms(1) by (rule distinct_length_filter)
  also have "{x. x = h} \<inter> set (map hostname hcs) = {h}"
    using assms(2) by auto
  finally have "length (filter (\<lambda>x. x = h) (map hostname hcs)) = 1" by simp
  then show ?thesis
    by (simp add: attempts_of_eq filter_map comp_def)
qed

lemma successes_of_all:
  assumes "\<forall>i<length hcs. out i (hcs ! i)"
  shows "successes_of out hcs h = attempts_of hcs h"
  unfolding successes_of_def attempts_of_def
  using assms by (intro arg_cong [where f = length] filter_cong) auto

lemma as_Sites_dom: "dom (as_Sites t) = dom t"
  by (auto simp add: as_Sites_def dom_def)

lemma Uptime_1_1: "Uptime \<lparr>Attempt = 1, Success = 1\<rparr> = 100"
  by (rule Uptime_full) simp_all

lemma Uptime_2_1: "Uptime \<lparr>Attempt = 2, Success = 1\<rparr> = 50"
  by code_simp

text \<open>
  Claim C5. After the first cycle over \<open>N\<close> descriptors with \<open>N\<close> different hostnames, all
  of whose probes succeed, and for every order in which the goroutines take the lock: the
  store has exactly \<open>N\<close> buckets, each holds one attempt and one success and is reported
  with uptime 100, and in the trace of the cycle the report comes after the \<open>N\<close> recorded
  probes, one for every descriptor.
\<close>

theorem distinct_hosts_one_cycle:
  assumes ok: "\<forall>hc\<in>set cfg. Name hc \<noteq> [] \<and> URL hc \<noteq> [] \<and> \<not> isl (url_Parse lib (URL hc))"
    and dist: "distinct (map (host_of lib) cfg)"
    and up: "\<forall>i<length cfg. check lib (world 0 i) (cfg ! i) = Returned True"
    and sch: "is_schedule cfg (sched 0)"
  shows "\<exists>sites.
           main lib world sched cfg 1 =
             Inr (Returned (map (\<lambda>i. Probed i True) (sched 0) @
                              [Reported (report sites), Slept (15 * Second)], sites)) \<and>
           mset (sched 0) = mset [0..<length cfg] \<and>
           dom sites = host_of lib ` set cfg \<and>
           card (dom sites) = length cfg \<and>
           (\<forall>h\<in>dom sites. sites h = Some \<lparr>Attempt = 1, Success = 1\<rparr> \<and>
                             report sites h = Some 100)"
proof -
  define hcs where "hcs = map (\<lambda>hc. hc\<lparr>hostname := host_of lib hc\<rparr>) cfg"
  define out where "out = (\<lambda>i hc. check lib (world 0 i) hc = Returned True)"
  define t0 :: "string \<rightharpoonup> nat \<times> nat"
    where "t0 = (\<lambda>h. if h \<in> host_of lib ` set cfg then Some (0, 0) else None)"
  define sites where "sites = as_Sites (cycle_count out hcs t0)"
  have ok': "\<forall>hc\<in>set cfg. \<not> bad_entry lib hc" using ok by (simp add: bad_entry_def)
  have hn: "map hostname hcs = map (host_of lib) cfg" by (simp add: hcs_def comp_def)
  have len: "length hcs = length cfg" by (simp add: hcs_def)
  have allup: "\<forall>i<length hcs. out i (hcs ! i)"
    using up by (simp add: out_def hcs_def check_ignores_hostname)
  have run: "main lib world sched cfg 1 =
           Inr (Returned (map (\<lambda>i. Probed i (out i (hcs ! i))) (sched 0) @
                            [Reported (report sites), Slept (outputTimeout * Second)],
                          sites))"
    using main_one_cycle [of cfg lib "sched 0" sched world, OF ok' sch]
    by (simp add: sites_def t0_def hcs_def out_def Let_def)
  have inr: "\<forall>i\<in>set (sched 0). i < length hcs"
    using is_schedule_set [OF sch] by (simp add: len)
  then have tr: "map (\<lambda>i. Probed i (out i (hcs ! i))) (sched 0) = map (\<lambda>i. Probed i True) (sched 0)"
    using allup by simp
  have "dom t0 = host_of lib ` set cfg"
    by (auto simp add: t0_def dom_def)
  then have dom: "dom sites = host_of lib ` set cfg"
    by (simp only: sites_def as_Sites_dom cycle_count_dom)
  have "card (host_of lib ` set cfg) = length cfg"
    using distinct_card [OF dist] by simp
  then have card: "card (dom sites) = length cfg" by (simp add: dom)
  have bucket: "sites h = Some \<lparr>Attempt = 1, Success = 1\<rparr> \<and> report sites h = Some 100"
    if "h \<in> dom sites" for h
  proof -
    from that have hin: "h \<in> host_of lib ` set cfg" by (simp add: dom)
    have "hostname ` set hcs = set (map hostname hcs)" by simp
    also have "\<dots> = host_of lib ` set cfg" unfolding hn by simp
    finally have "h \<in> hostname ` set hcs" using hin by simp
    with dist have a: "attempts_of hcs h = 1"
      by (intro attempts_of_distinct) (simp_all only: hn)
    have s: "successes_of out hcs h = 1"
      using successes_of_all [of hcs out h] allup a by simp
    have "sites h = Some (as_Result (1, 1))"
      using hin by (simp add: sites_def as_Sites_def cycle_count_def t0_def a s)
    then have "sites h = Some \<lparr>Attempt = 1, Success = 1\<rparr>"
      by (simp add: as_Result_def sat53_def)
    then show ?thesis by (simp add: report_def Uptime_1_1)
  qed
  have m: "mset (sched 0) = mset [0..<length cfg]"
    using sch by (simp add: is_schedule_def)
  show ?thesis
    using run tr dom card bucket m
    by (intro exI [of _ sites]) (simp add: outputTimeout_def)
qed


text \<open>C5 at two descriptors on different hosts that both answer 200, the second goroutine first.\<close>

theorem distinct_hosts_one_cycle_witness:
  "\<exists>sites.
     main demo_lib (demo_world 200 200) (demo_sched [1, 0])
       [demo_site ''GET'' ''http://a.example.com/x'' None,
        demo_site ''GET'' ''http://b.example.com/'' None] 1 =
       Inr (Returned ([Probed 1 True, Probed 0 True, Reported (report sites), Slept (15 * Second)],
                      sites)) \<and>
     card (dom sites) = 2 \<and>
     sites ''a.example.com'' = Some \<lparr>Attempt = 1, Success = 1\<rparr> \<and>
     report sites ''b.example.com'' = Some 100"
proof -
  let ?cfg = "[demo_site ''GET'' ''http://a.example.com/x'' None,
        demo_site ''GET'' ''http://b.example.com/'' None]"
  have ok: "\<forall>hc\<in>set ?cfg. Name hc \<noteq> [] \<and> URL hc \<noteq> [] \<and> \<not> isl (url_Parse demo_lib (URL hc))"
    by (simp add: demo_site_def demo_lib_def)
  have hosts: "map (host_of demo_lib) ?cfg = [''a.example.com'', ''b.example.com'']"
    by (simp add: host_of_def demo_site_def demo_lib_def)
  have dist: "distinct (map (host_of demo_lib) ?cfg)"
    unfolding hosts by simp
  have c: "check demo_lib (demo_net 200) (demo_site ''GET'' u None) = Returned True" for u
    by (simp add: check_def demo_site_def demo_lib_def http_NewRequest_def demo_net_def)
  have up: "\<forall>i<length ?cfg. check demo_lib (demo_world 200 200 0 i) (?cfg ! i) = Returned True"
    by (simp add: demo_world_def c nth_Cons')
  have sch: "is_schedule ?cfg (demo_sched [1, 0] 0)"
    by (simp add: is_schedule_def demo_sched_def upt_rec)
  from distinct_hosts_one_cycle [where lib = demo_lib and cfg = ?cfg
      and world = "demo_world 200 200" and sched = "demo_sched [1, 0]", OF ok dist up sch]
  obtain sites where
    run: "main demo_lib (demo_world 200 200) (demo_sched [1, 0]) ?cfg 1 =
             Inr (Returned (map (\<lambda>i. Probed i True) (demo_sched [1, 0] 0) @
                              [Reported (report sites), Slept (15 * Second)], sites))"
    and d: "dom sites = host_of demo_lib ` set ?cfg"
    and cd: "card (dom sites) = length ?cfg"
    and b: "\<forall>h\<in>dom sites. sites h = Some \<lparr>Attempt = 1, Success = 1\<rparr> \<and>
                             report sites h = Some 100"
    by blast
  have "host_of demo_lib ` set ?cfg = set (map (host_of demo_lib) ?cfg)" by simp
  then have d': "dom sites = {''a.example.com'', ''b.example.com''}"
    unfolding d hosts by simp
  have "sites ''a.example.com'' = Some \<lparr>Attempt = 1, Success = 1\<rparr>"
       "report sites ''b.example.com'' = Some 100"
    using b d' by simp_all
  with run cd show ?thesis
    by (intro exI [of _ sites]) (simp add: demo_sched_def)
qed

text \<open>
  Claim C4. Two descriptors whose URLs have the same host share one bucket: after the
  first cycle, in which the probe of one of them succeeds and the probe of the other
  fails, and for either order of the two goroutines, that bucket holds two attempts and
  one success and is reported with uptime 50.
\<close>

theorem shared_host_one_cycle:
  assumes ok: "\<forall>hc\<in>set [d1, d2]. Name hc \<noteq> [] \<and> URL hc \<noteq> [] \<and> \<not> isl (url_Parse lib (URL hc))"
    and same: "host_of lib d1 = host_of lib d2"
    and o1: "check lib (world 0 0) d1 = Returned b"
    and o2: "check lib (world 0 1) d2 = Returned (\<not> b)"
    and sch: "is_schedule [d1, d2] (sched 0)"
  shows "\<exists>tr sites.
           main lib world sched [d1, d2] 1 =
             Inr (Returned (tr @ [Reported (report sites), Slept (15 * Second)], sites)) \<and>
           dom sites = {host_of lib d1} \<and>
           sites (host_of lib d1) = Some \<lparr>Attempt = 2, Success = 1\<rparr> \<and>
           report sites (host_of lib d1) = Some 50"
proof -
  define h where "h = host_of lib d1"
  define hcs where "hcs = map (\<lambda>hc. hc\<lparr>hostname := host_of lib hc\<rparr>) [d1, d2]"
  define out where "out = (\<lambda>i hc. check lib (world 0 i) hc = Returned True)"
  define t0 :: "string \<rightharpoonup> nat \<times> nat"
    where "t0 = (\<lambda>k. if k \<in> host_of lib ` set [d1, d2] then Some (0, 0) else None)"
  define sites where "sites = as_Sites (cycle_count out hcs t0)"
  have ok': "\<forall>hc\<in>set [d1, d2]. \<not> bad_entry lib hc" using ok by (simp add: bad_entry_def)
  have run: "main lib world sched [d1, d2] 1 =
           Inr (Returned (map (\<lambda>i. Probed i (out i (hcs ! i))) (sched 0) @
                            [Reported (report sites), Slept (outputTimeout * Second)],
                          sites))"
    using main_one_cycle [of "[d1, d2]" lib "sched 0" sched world, OF ok' sch]
    by (simp add: sites_def t0_def hcs_def out_def Let_def)
  have hcs2: "hcs = [d1\<lparr>hostname := h\<rparr>, d2\<lparr>hostname := h\<rparr>]"
    by (simp add: hcs_def h_def same)
  have a: "attempts_of hcs h = 2"
    by (simp add: attempts_of_eq hcs2)
  have idx: "[0..<length hcs] = [0, 1]"
    by (simp add: hcs2 upt_rec)
  have outs: "out 0 (d1\<lparr>hostname := h\<rparr>) = b" "out 1 (d2\<lparr>hostname := h\<rparr>) = (\<not> b)"
    using o1 o2 by (simp_all add: out_def check_ignores_hostname)
  have s: "successes_of out hcs h = 1"
    unfolding successes_of_def idx using outs by (cases b) (simp_all add: hcs2)
  have t0h: "t0 h = Some (0, 0)" by (simp add: t0_def h_def)
  have "dom t0 = {h}" by (auto simp add: t0_def h_def same dom_def)
  then have dom: "dom sites = {h}"
    by (simp only: sites_def as_Sites_dom cycle_count_dom)
  have "sites h = Some (as_Result (2, 1))"
    by (simp add: sites_def as_Sites_def cycle_count_def t0h a s numeral_2_eq_2)
  then have b2: "sites h = Some \<lparr>Attempt = 2, Success = 1\<rparr>"
    by (simp add: as_Result_def sat53_def)
  then have "report sites h = Some 50" by (simp add: report_def Uptime_2_1)
  with run dom b2 show ?thesis
    unfolding h_def [symmetric]
    by (intro exI [of _ "map (\<lambda>i. Probed i (out i (hcs ! i))) (sched 0)"] exI [of _ sites])
       (simp add: outputTimeout_def)
qed

text \<open>C4 at the two URLs of the spec: the first answers 200 and the second 500.\<close>

theorem shared_host_one_cycle_witness:
  "\<exists>tr sites.
     main demo_lib (demo_world 200 500) (demo_sched [1, 0])
       [demo_site ''GET'' ''http://a.example.com/x'' None,
        demo_site ''GET'' ''http://a.example.com/y'' None] 1 =
       Inr (Returned (tr @ [Reported (report sites), Slept (15 * Second)], sites)) \<and>
     dom sites = {''a.example.com''} \<and>
     sites ''a.example.com'' = Some \<lparr>Attempt = 2, Success = 1\<rparr> \<and>
     report sites ''a.example.com'' = Some 50"
proof -
  let ?d1 = "demo_site ''GET'' ''http://a.example.com/x'' None"
  let ?d2 = "demo_site ''GET'' ''http://a.example.com/y'' None"
  have ok: "\<forall>hc\<in>set [?d1, ?d2]. Name hc \<noteq> [] \<and> URL hc \<noteq> [] \<and> \<not> isl (url_Parse demo_lib (URL hc))"
    by (simp add: demo_site_def demo_lib_def)
  have h1: "host_of demo_lib ?d1 = ''a.example.com''" and h2: "host_of demo_lib ?d2 = ''a.example.com''"
    by (simp_all add: host_of_def demo_site_def demo_lib_def)
  have same: "host_of demo_lib ?d1 = host_of demo_lib ?d2"
    unfolding h1 h2 ..
  have o1: "check demo_lib (demo_world 200 500 0 0) ?d1 = Returned True"
    by (simp add: check_def demo_site_def demo_lib_def http_NewRequest_def demo_net_def demo_world_def)
  have o2: "check demo_lib (demo_world 200 500 0 1) ?d2 = Returned (\<not> True)"
    by (simp add: check_def demo_site_def demo_lib_def http_NewRequest_def demo_net_def demo_world_def)
  have sch: "is_schedule [?d1, ?d2] (demo_sched [1, 0] 0)"
    by (simp add: is_schedule_def demo_sched_def upt_rec)
  from shared_host_one_cycle [where lib = demo_lib and ?d1.0 = ?d1 and ?d2.0 = ?d2
      and world = "demo_world 200 500" and sched = "demo_sched [1, 0]" and b = True,
      OF ok same o1 o2 sch]
  show ?thesis
    unfolding h1 .
qed

end
